theory Spec2Isabelle
  imports Main "HOL-Library.Word" "HOL-Library.AList"
begin

section \<open>Structured values, exceptions and results\<close>

text \<open>
  The client exchanges \<^verbatim>\<open>folly::dynamic\<close> values with the server. The connection only
  looks keys up (\<^verbatim>\<open>get_ptr\<close>) and, in the handshake, stores one key
  (\<^verbatim>\<open>operator[]\<close>), so the value is a tagged union whose maps are association lists
  with string keys. A double is kept as its 64 raw bits.
\<close>

datatype dynamic =
    DNull
  | DBool bool
  | DInt int
  | DDouble int
  | DString string
  | DArray "dynamic list"
  | DObject "(string \<times> dynamic) list"

text \<open>
  The exceptions that travel through the connection, by their C++ class. \<open>StdException\<close>
  is a bare \<^verbatim>\<open>std::exception\<close>: what an exception wrapper holds when it was built from a
  reference of that static type, which copies the base class only.
\<close>

datatype exn =
    StdException
  | OutOfRange
  | TypeError
  | RuntimeError string
  | SystemError nat string
  | WatchmanError string
  | WatchmanResponseError dynamic
  | AsyncSocketException string
  | PromiseAlreadySatisfied

text \<open>\<^verbatim>\<open>folly::Try<dynamic>\<close>: \<open>Inl\<close> holds the exception, \<open>Inr\<close> the value.\<close>

type_synonym try_dynamic = "exn + dynamic"

type_synonym bytes = "8 word list"

text \<open>
  \<^verbatim>\<open>dynamic::get_ptr\<close> with a string key: a map answers with the value or a null pointer;
  an array wants an integer index and every other value is no container, both throw
  \<^verbatim>\<open>TypeError\<close>.
\<close>

fun get_ptr :: "dynamic \<Rightarrow> string \<Rightarrow> exn + dynamic option" where
  "get_ptr (DObject kvs) k = Inr (map_of kvs k)"
| "get_ptr (DArray xs) k = Inl TypeError"
| "get_ptr DNull k = Inl TypeError"
| "get_ptr (DBool b) k = Inl TypeError"
| "get_ptr (DInt i) k = Inl TypeError"
| "get_ptr (DDouble d) k = Inl TypeError"
| "get_ptr (DString s) k = Inl TypeError"

text \<open>\<^verbatim>\<open>value[key] = v\<close>: a map inserts or overwrites, anything else throws.\<close>

fun set_item :: "dynamic \<Rightarrow> string \<Rightarrow> dynamic \<Rightarrow> exn + dynamic" where
  "set_item (DObject kvs) k v = Inr (DObject (AList.update k v kvs))"
| "set_item (DArray xs) k v = Inl TypeError"
| "set_item DNull k v = Inl TypeError"
| "set_item (DBool b) k v = Inl TypeError"
| "set_item (DInt i) k v = Inl TypeError"
| "set_item (DDouble d) k v = Inl TypeError"
| "set_item (DString s) k v = Inl TypeError"

fun isObject :: "dynamic \<Rightarrow> bool" where
  "isObject (DObject kvs) = True"
| "isObject (DArray xs) = False"
| "isObject DNull = False"
| "isObject (DBool b) = False"
| "isObject (DInt i) = False"
| "isObject (DDouble d) = False"
| "isObject (DString s) = False"

definition kUnilateralLabels :: "string list" where
  "kUnilateralLabels = [''subscription'', ''log'']"

definition kError :: string where
  "kError = ''error''"

definition kCapabilities :: string where
  "kCapabilities = ''capabilities''"

text \<open>
  \<^verbatim>\<open>watchmanResponseToTry\<close>: a response with an \<^verbatim>\<open>"error"\<close> key is reported as an
  exception that carries the whole response.
\<close>

definition watchmanResponseToTry :: "dynamic \<Rightarrow> exn + try_dynamic" where
  "watchmanResponseToTry v =
     (case get_ptr v kError of
        Inl e \<Rightarrow> Inl e
      | Inr (Some error) \<Rightarrow> Inr (Inl (WatchmanResponseError v))
      | Inr None \<Rightarrow> Inr (Inr v))"

section \<open>The wire format, taken as a parameter\<close>

text \<open>
  The BSER library is not part of the client. \<^verbatim>\<open>decodePduLength\<close> reads the header at
  the front of the received bytes and answers with the length of the whole PDU, or throws:
  \<^verbatim>\<open>std::out_of_range\<close> when the header is not there yet, something else when it is
  malformed. \<^verbatim>\<open>parseBser\<close> turns the bytes of one PDU into a value, or throws.
\<close>

type_synonym pdu_length_decoder = "bytes \<Rightarrow> exn + nat"

type_synonym bser_parser = "bytes \<Rightarrow> exn + dynamic"

section \<open>The connection\<close>

text \<open>
  A queued command is a heap object shared between the queue, the copy of the queue that
  failure propagation walks, and the caller's future. \<open>qid\<close> stands for its address; the
  state of its promise lives in the connection's \<open>settled\<close> log under that address.
\<close>

record queued_command =
  qid :: nat
  cmd :: dynamic

text \<open>
  The members of \<^verbatim>\<open>WatchmanConnection\<close> that the operations read or write:
  \<open>sock\<close> and \<open>callback\<close> say whether \<^verbatim>\<open>sock_\<close> and \<^verbatim>\<open>callback_\<close> are set;
  \<open>readCB\<close> says whether the connection is installed as the read callback of the socket
  that \<^verbatim>\<open>sock_\<close> holds; \<open>bufQ\<close> holds the bytes received and not yet split off.
  What the connection does to the outside is recorded in order:
  \<open>settled\<close> lists every promise of a queued command that was fulfilled, with its result;
  \<open>written\<close> lists the commands handed to \<^verbatim>\<open>writeChain\<close>;
  \<open>notified\<close> lists the arguments of every call of the subscriber callback;
  \<open>popped\<close> counts the commands removed from the queue after their response;
  \<open>sendTasks\<close> counts the \<^verbatim>\<open>sendCommand()\<close> calls posted to the event base and not yet run,
  \<open>openTasks\<close> the lambdas of \<^verbatim>\<open>connect\<close> posted there to create the socket.
  \<open>next_id\<close> is the next fresh address, and \<open>versionId\<close> the command whose future carries
  the continuation installed by \<^verbatim>\<open>connectSuccess\<close>.
  The mutex is not a field: the operations are taken one at a time, and the one place where
  the code locks it twice on the same thread is a fault of its own below.
\<close>

record conn =
  sock :: bool
  readCB :: bool
  callback :: bool
  broken :: bool
  closing :: bool
  decoding :: bool
  commandQ :: "queued_command list"
  bufQ :: bytes
  versionCmd :: dynamic
  connectPromise :: "try_dynamic option"
  versionId :: "nat option"
  next_id :: nat
  sendTasks :: nat
  openTasks :: nat
  settled :: "(nat \<times> try_dynamic) list"
  written :: "dynamic list"
  notified :: "try_dynamic list"
  popped :: nat

text \<open>
  What ends an operation other than a return: the second lock of the mutex by the thread
  that holds it, an exception that no handler catches, and undefined behaviour
  (\<^verbatim>\<open>pop_front\<close> on an empty deque, a call through the null \<^verbatim>\<open>sock_\<close>).
\<close>

datatype fault = SelfDeadlock | Uncaught exn | UndefinedBehaviour

text \<open>
  Modelled from the spec: the default member initialisers of the class are in the header,
  which is not among the sources. A connection starts in the state Created, neither broken
  nor closing nor decoding, with no transport, an empty queue and an empty buffer.
\<close>

definition init :: "bool \<Rightarrow> conn" where
  "init cb =
     \<lparr> sock = False, readCB = False, callback = cb, broken = False, closing = False, decoding = False,
       commandQ = [], bufQ = [], versionCmd = DNull, connectPromise = None,
       versionId = None, next_id = 0, sendTasks = 0, openTasks = 0, settled = [], written = [],
       notified = [], popped = 0 \<rparr>"

subsection \<open>Promises\<close>

definition isFulfilled :: "conn \<Rightarrow> nat \<Rightarrow> bool" where
  "isFulfilled c i = (map_of (settled c) i \<noteq> None)"

text \<open>Setting \<^verbatim>\<open>connectPromise_\<close> a second time throws.\<close>

definition connectPromise_set :: "try_dynamic \<Rightarrow> conn \<Rightarrow> exn + conn" where
  "connectPromise_set t c =
     (case connectPromise c of
        None \<Rightarrow> Inr (c\<lparr>connectPromise := Some t\<rparr>)
      | Some _ \<Rightarrow> Inl PromiseAlreadySatisfied)"

definition upgrade_message :: string where
  "upgrade_message = ''This watchman server has no support for capabilities, '' @
                      ''please upgrade to the current stable version of watchman''"

text \<open>The \<^verbatim>\<open>then\<close> lambda of \<^verbatim>\<open>connectSuccess\<close>, run on the value of the version command.\<close>

definition versionThen :: "dynamic \<Rightarrow> conn \<Rightarrow> exn + conn" where
  "versionThen result c =
     (case get_ptr result kCapabilities of
        Inl e \<Rightarrow> Inl e
      | Inr None \<Rightarrow>
          (case set_item result ''error'' (DString upgrade_message) of
             Inl e \<Rightarrow> Inl e
           | Inr result' \<Rightarrow>
               (case watchmanResponseToTry result' of
                  Inl e \<Rightarrow> Inl e
                | Inr t \<Rightarrow> connectPromise_set t c))
      | Inr (Some caps) \<Rightarrow> connectPromise_set (Inr result) c)"

text \<open>
  The \<^verbatim>\<open>onError\<close> lambda. An exception thrown by \<^verbatim>\<open>setException\<close> ends in the future
  that \<^verbatim>\<open>onError\<close> returns, which nobody holds.
\<close>

definition versionOnError :: "exn \<Rightarrow> conn \<Rightarrow> conn" where
  "versionOnError e c =
     (case connectPromise_set (Inl e) c of Inl _ \<Rightarrow> c | Inr c' \<Rightarrow> c')"

text \<open>
  The chain \<^verbatim>\<open>.then(...).onError(...)\<close>: a failed version command skips \<^verbatim>\<open>then\<close>;
  an exception thrown inside \<^verbatim>\<open>then\<close> reaches \<^verbatim>\<open>onError\<close>.
\<close>

definition versionContinuation :: "try_dynamic \<Rightarrow> conn \<Rightarrow> conn" where
  "versionContinuation t c =
     (case t of
        Inl e \<Rightarrow> versionOnError e c
      | Inr result \<Rightarrow>
          (case versionThen result c of Inl e \<Rightarrow> versionOnError e c | Inr c' \<Rightarrow> c'))"

text \<open>
  Fulfilling the promise of a queued command runs the continuations of its future inline.
  Those of the caller are outside the connection; the one of \<^verbatim>\<open>connectSuccess\<close> is not.
  The caller's continuations and the subscriber callback are taken to return normally and
  not to call back into the connection.
\<close>

definition settle :: "nat \<Rightarrow> try_dynamic \<Rightarrow> conn \<Rightarrow> conn" where
  "settle i t c =
     (let c' = c\<lparr>settled := settled c @ [(i, t)]\<rparr>
      in if versionId c' = Some i then versionContinuation t c' else c')"

definition promise_setTry :: "nat \<Rightarrow> try_dynamic \<Rightarrow> conn \<Rightarrow> exn + conn" where
  "promise_setTry i t c =
     (if isFulfilled c i then Inl PromiseAlreadySatisfied else Inr (settle i t c))"

subsection \<open>Failure propagation\<close>

text \<open>
  \<^verbatim>\<open>failQueuedCommands\<close>: \<open>failPromises\<close> is its loop over the copy of the queue.
  With the default inline executor the subscriber is called before the function returns.
\<close>

fun failPromises :: "exn \<Rightarrow> queued_command list \<Rightarrow> conn \<Rightarrow> conn" where
  "failPromises ex [] c = c"
| "failPromises ex (qc # q) c =
     failPromises ex q
       (if \<not> isFulfilled c (qid qc) then settle (qid qc) (Inl ex) c else c)"

definition failQueuedCommands :: "exn \<Rightarrow> conn \<Rightarrow> conn" where
  "failQueuedCommands ex c =
     (let q = commandQ c;
          c1 = c\<lparr>commandQ := [], broken := True\<rparr>;
          c2 = failPromises ex q c1
      in if callback c2 \<and> \<not> closing c2
         then c2\<lparr>notified := notified c2 @ [Inl ex]\<rparr>
         else c2)"

subsection \<open>The command queue\<close>

text \<open>
  \<^verbatim>\<open>run\<close> returns the future of a new queued command; the model returns its address.
  The promise is new when \<^verbatim>\<open>run\<close> fails it, so no continuation hangs on it yet.
\<close>

definition run :: "dynamic \<Rightarrow> conn \<Rightarrow> nat \<times> conn" where
  "run command c =
     (let i = next_id c;
          c0 = c\<lparr>next_id := Suc i\<rparr>
      in if broken c0 then
           (i, c0\<lparr>settled := settled c0 @ [(i, Inl (WatchmanError ''The connection was broken''))]\<rparr>)
         else if \<not> sock c0 then
           (i, c0\<lparr>settled := settled c0 @
              [(i, Inl (WatchmanError
                 ''No socket (did you call connect() and check result for exceptions?)''))]\<rparr>)
         else
           (let shouldWrite = (commandQ c0 = []);
                c1 = c0\<lparr>commandQ := commandQ c0 @ [\<lparr>qid = i, cmd = command\<rparr>]\<rparr>
            in (i, if shouldWrite then c1\<lparr>sendTasks := Suc (sendTasks c1)\<rparr> else c1)))"

text \<open>
  \<^verbatim>\<open>sendCommand\<close>: \<^verbatim>\<open>pop_front\<close> on an empty deque and \<^verbatim>\<open>writeChain\<close> through a null
  \<^verbatim>\<open>sock_\<close> are undefined behaviour. \<open>written\<close> records the command whose encoding is
  handed to the socket; the encoder is taken to accept every command.
\<close>

definition sendCommand :: "bool \<Rightarrow> conn \<Rightarrow> fault + conn" where
  "sendCommand pop c =
     (if pop \<and> commandQ c = [] then Inl UndefinedBehaviour
      else
        (let c1 = (if pop then c\<lparr>commandQ := tl (commandQ c), popped := Suc (popped c)\<rparr> else c)
         in case commandQ c1 of
              [] \<Rightarrow> Inr c1
            | qc # _ \<Rightarrow>
                if sock c1 then Inr (c1\<lparr>written := written c1 @ [cmd qc]\<rparr>)
                else Inl UndefinedBehaviour))"

definition popAndSendCommand :: "conn \<Rightarrow> fault + conn" where
  "popAndSendCommand c = sendCommand True c"

subsection \<open>Connecting\<close>

text \<open>
  \<^verbatim>\<open>connect\<close> stores the version command and, when the socket path is known, posts to the
  event base the lambda that creates the socket (\<open>openSocket\<close> below). The exception goes
  to the caller. Finding the path is outside; a posted lambda that never runs stands for a
  path that is not found.
\<close>

definition connect :: "dynamic \<Rightarrow> conn \<Rightarrow> exn + conn" where
  "connect versionArgs c =
     (if \<not> isObject versionArgs then Inl (WatchmanError ''versionArgs must be object'')
      else Inr (c\<lparr>versionCmd := DArray [DString ''version'', versionArgs],
                  openTasks := Suc (openTasks c)\<rparr>))"

text \<open>
  \<^verbatim>\<open>connectSuccess\<close>: the calls on the socket need \<^verbatim>\<open>sock_\<close>; the first of them,
  \<^verbatim>\<open>setReadCB(this)\<close>, installs the connection as the read callback. The future of the
  version command gets the handshake continuation; when \<^verbatim>\<open>run\<close> has already failed the
  future, the continuation runs at once.
\<close>

definition connectSuccess :: "conn \<Rightarrow> fault + conn" where
  "connectSuccess c =
     (if \<not> sock c then Inl UndefinedBehaviour
      else
        (let c0 = c\<lparr>readCB := True\<rparr>;
             (i, c1) = run (versionCmd c0) c0
         in case map_of (settled c1) i of
              Some t \<Rightarrow> Inr (versionContinuation t c1)
            | None \<Rightarrow> Inr (c1\<lparr>versionId := Some i\<rparr>)))"

text \<open>
  \<^verbatim>\<open>connectErr\<close> is \<^verbatim>\<open>noexcept\<close>: a second assignment of the connect promise ends the
  process.
\<close>

definition connectErr :: "exn \<Rightarrow> conn \<Rightarrow> fault + conn" where
  "connectErr ex c =
     (case connectPromise_set (Inl ex) c of Inl e \<Rightarrow> Inl (Uncaught e) | Inr c' \<Rightarrow> Inr c')"

subsection \<open>Transport callbacks\<close>

definition writeErr :: "exn \<Rightarrow> conn \<Rightarrow> conn" where
  "writeErr ex c = failQueuedCommands ex c"

definition ENOTCONN :: nat where
  "ENOTCONN = 107"

definition readEOF :: "conn \<Rightarrow> conn" where
  "readEOF c = failQueuedCommands (SystemError ENOTCONN ''connection closed'') c"

definition readErr :: "exn \<Rightarrow> conn \<Rightarrow> conn" where
  "readErr ex c = failQueuedCommands ex c"

subsection \<open>The socket\<close>

text \<open>
  The lambda of \<^verbatim>\<open>close\<close>: \<^verbatim>\<open>sock_->close(); sock_.reset();\<close>. The socket is the
  library's \<^verbatim>\<open>AsyncSocket\<close>, whose \<^verbatim>\<open>close()\<close> tells its read callback that no more
  data will come: when a read callback is installed it calls \<^verbatim>\<open>readEOF()\<close> on it before
  it returns. So once \<^verbatim>\<open>connectSuccess\<close> has run, \<^verbatim>\<open>readEOF\<close> runs inside
  \<^verbatim>\<open>close\<close>, with \<^verbatim>\<open>closing_\<close> already set. What the socket does to writes that it still
  holds is not modelled, and the report that a socket closed while its connect is pending
  makes to \<^verbatim>\<open>connectErr\<close> is left to the event of that callback.
\<close>

definition socketClose :: "conn \<Rightarrow> conn" where
  "socketClose c = (if readCB c then readEOF c else c)\<lparr>sock := False, readCB := False\<rparr>"

text \<open>
  The lambda that \<^verbatim>\<open>connect\<close> posts: \<^verbatim>\<open>sock_ = newSocket(...); sock_->connect(...)\<close>.
  The new socket has no read callback yet. A socket that \<^verbatim>\<open>sock_\<close> held before is
  destroyed by the assignment, and the library closes a socket that it destroys.
\<close>

definition openSocket :: "conn \<Rightarrow> conn" where
  "openSocket c = (if sock c then socketClose c else c)\<lparr>sock := True, readCB := False\<rparr>"

subsection \<open>Closing\<close>

definition close_error :: exn where
  "close_error = WatchmanError ''WatchmanConnection::close() was called''"

definition close :: "conn \<Rightarrow> conn" where
  "close c =
     (if closing c then c
      else
        (let c1 = c\<lparr>closing := True\<rparr>;
             c2 = (if sock c1 then socketClose c1 else c1)
         in failQueuedCommands close_error c2))"

text \<open>\<^verbatim>\<open>getReadBuffer\<close> and \<^verbatim>\<open>postallocate\<close>: the bytes read join the end of the buffer.\<close>

definition postallocate :: "bytes \<Rightarrow> conn \<Rightarrow> conn" where
  "postallocate bs c = c\<lparr>bufQ := bufQ c @ bs\<rparr>"

subsection \<open>Framing\<close>

text \<open>
  \<^verbatim>\<open>splitNextPdu\<close>: \<open>None\<close> is the null pointer. Only \<^verbatim>\<open>std::out_of_range\<close> is caught;
  any other exception of the header decoder leaves the function.
\<close>

definition splitNextPdu :: "pdu_length_decoder \<Rightarrow> conn \<Rightarrow> exn + (bytes option \<times> conn)" where
  "splitNextPdu decodePduLength c =
     (if bufQ c = [] then Inr (None, c)
      else
        (case decodePduLength (bufQ c) of
           Inl OutOfRange \<Rightarrow> Inr (None, c)
         | Inl e \<Rightarrow> Inl e
         | Inr pdu_len \<Rightarrow>
             if pdu_len > length (bufQ c) then Inr (None, c)
             else Inr (Some (take pdu_len (bufQ c)), c\<lparr>bufQ := drop pdu_len (bufQ c)\<rparr>)))"

subsection \<open>Dispatch\<close>

datatype unilateral = NotUnilateral | Delivered conn | NoCallback conn

text \<open>The loop over \<^verbatim>\<open>kUnilateralLabels\<close> in \<^verbatim>\<open>decodeNextResponse\<close>.\<close>

fun checkUnilateral :: "string list \<Rightarrow> dynamic \<Rightarrow> conn \<Rightarrow> exn + unilateral" where
  "checkUnilateral [] decoded c = Inr NotUnilateral"
| "checkUnilateral (k # ks) decoded c =
     (case get_ptr decoded k of
        Inl e \<Rightarrow> Inl e
      | Inr (Some _) \<Rightarrow>
          if callback c then
            (case watchmanResponseToTry decoded of
               Inl e \<Rightarrow> Inl e
             | Inr t \<Rightarrow> Inr (Delivered (c\<lparr>notified := notified c @ [t]\<rparr>)))
          else
            Inr (NoCallback
              (failQueuedCommands (RuntimeError ''No unilateral callback has been installed'') c))
      | Inr None \<Rightarrow> checkUnilateral ks decoded c)"

text \<open>What one turn of the \<^verbatim>\<open>while (true)\<close> loop decides.\<close>

datatype loop_ctl = Continue conn | Stop conn | Abort fault

text \<open>
  The body of the \<^verbatim>\<open>try\<close> block. On an empty queue the code calls
  \<^verbatim>\<open>failQueuedCommands\<close> inside the scope of its own lock guard, and
  \<^verbatim>\<open>failQueuedCommands\<close> locks the same \<^verbatim>\<open>std::mutex\<close> first: the thread waits for
  itself.
\<close>

definition decodeBody :: "bser_parser \<Rightarrow> bytes \<Rightarrow> conn \<Rightarrow> exn + loop_ctl" where
  "decodeBody parseBser pdu c =
     (case parseBser pdu of
        Inl e \<Rightarrow> Inl e
      | Inr decoded \<Rightarrow>
          (case checkUnilateral kUnilateralLabels decoded c of
             Inl e \<Rightarrow> Inl e
           | Inr (Delivered c') \<Rightarrow> Inr (Continue c')
           | Inr (NoCallback c') \<Rightarrow> Inr (Stop c')
           | Inr NotUnilateral \<Rightarrow>
               (case commandQ c of
                  [] \<Rightarrow> Inr (Abort SelfDeadlock)
                | qc # _ \<Rightarrow>
                    (case watchmanResponseToTry decoded of
                       Inl e \<Rightarrow> Inl e
                     | Inr t \<Rightarrow>
                         (case promise_setTry (qid qc) t c of
                            Inl e \<Rightarrow> Inl e
                          | Inr c' \<Rightarrow>
                              (case popAndSendCommand c' of
                                 Inl f \<Rightarrow> Inr (Abort f)
                               | Inr c'' \<Rightarrow> Inr (Continue c'')))))))"

text \<open>
  The \<^verbatim>\<open>catch (const std::exception& ex)\<close> around it. Every exception of the body is
  thrown before the body has changed the connection. The handler passes \<^verbatim>\<open>ex\<close> where an
  exception wrapper is expected, so the wrapper is built from the reference to the base
  class and the error that \<^verbatim>\<open>failQueuedCommands\<close> hands on is a bare
  \<^verbatim>\<open>std::exception\<close>, whatever was thrown.
\<close>

definition dispatchPdu :: "bser_parser \<Rightarrow> bytes \<Rightarrow> conn \<Rightarrow> loop_ctl" where
  "dispatchPdu parseBser pdu c =
     (case decodeBody parseBser pdu c of
        Inl e \<Rightarrow> Stop (failQueuedCommands StdException c)
      | Inr r \<Rightarrow> r)"

text \<open>
  The \<^verbatim>\<open>while (true)\<close> loop. \<open>None\<close> is a loop that never ends. \<^verbatim>\<open>splitNextPdu\<close> is
  called outside the \<^verbatim>\<open>try\<close> block, so what it throws is caught by nobody.
\<close>

partial_function (option) decodeLoop ::
  "pdu_length_decoder \<Rightarrow> bser_parser \<Rightarrow> conn \<Rightarrow> (fault + conn) option" where
  "decodeLoop decodePduLength parseBser c =
     (case splitNextPdu decodePduLength c of
        Inl e \<Rightarrow> Some (Inl (Uncaught e))
      | Inr (None, c') \<Rightarrow> Some (Inr c')
      | Inr (Some pdu, c') \<Rightarrow>
          (case dispatchPdu parseBser pdu c' of
             Continue c'' \<Rightarrow> decodeLoop decodePduLength parseBser c''
           | Stop c'' \<Rightarrow> Some (Inr c'')
           | Abort f \<Rightarrow> Some (Inl f)))"

declare decodeLoop.simps [code]

text \<open>\<^verbatim>\<open>decodeNextResponse\<close>: the single-flight flag, and the scope exit that clears it.\<close>

definition decodeNextResponse ::
  "pdu_length_decoder \<Rightarrow> bser_parser \<Rightarrow> conn \<Rightarrow> (fault + conn) option" where
  "decodeNextResponse decodePduLength parseBser c =
     (if decoding c then Some (Inr c)
      else
        (case decodeLoop decodePduLength parseBser (c\<lparr>decoding := True\<rparr>) of
           None \<Rightarrow> None
         | Some (Inl f) \<Rightarrow> Some (Inl f)
         | Some (Inr c') \<Rightarrow> Some (Inr (c'\<lparr>decoding := False\<rparr>))))"

text \<open>\<^verbatim>\<open>readDataAvailable\<close> with the inline executor: append, then decode.\<close>

definition readDataAvailable ::
  "pdu_length_decoder \<Rightarrow> bser_parser \<Rightarrow> bytes \<Rightarrow> conn \<Rightarrow> (fault + conn) option" where
  "readDataAvailable decodePduLength parseBser bs c =
     decodeNextResponse decodePduLength parseBser (postallocate bs c)"

section \<open>Executions\<close>

text \<open>
  What can happen to a connection, one at a time: the calls of its owner, the callbacks of
  the socket, and the event base running what was posted to it: the lambda of
  \<^verbatim>\<open>connect\<close> and \<^verbatim>\<open>sendCommand()\<close>.
\<close>

datatype event =
    Connect dynamic
  | OpenSocket
  | ConnectSuccess
  | ConnectErr exn
  | Run dynamic
  | Close
  | SendTask
  | ReadData bytes
  | WriteErr exn
  | ReadEOF
  | ReadErr exn

fun step ::
  "pdu_length_decoder \<Rightarrow> bser_parser \<Rightarrow> event \<Rightarrow> conn \<Rightarrow> (fault + conn) option" where
  "step dl pb (Connect args) c =
     (case connect args c of Inl e \<Rightarrow> Some (Inr c) | Inr c' \<Rightarrow> Some (Inr c'))"
| "step dl pb OpenSocket c =
     (if openTasks c = 0 then Some (Inr c)
      else Some (Inr (openSocket (c\<lparr>openTasks := openTasks c - 1\<rparr>))))"
| "step dl pb ConnectSuccess c = Some (connectSuccess c)"
| "step dl pb (ConnectErr ex) c = Some (connectErr ex c)"
| "step dl pb (Run command) c = Some (Inr (snd (run command c)))"
| "step dl pb Close c = Some (Inr (close c))"
| "step dl pb SendTask c =
     (if sendTasks c = 0 then Some (Inr c)
      else Some (sendCommand False (c\<lparr>sendTasks := sendTasks c - 1\<rparr>)))"
| "step dl pb (ReadData bs) c = readDataAvailable dl pb bs c"
| "step dl pb (WriteErr ex) c = Some (Inr (writeErr ex c))"
| "step dl pb ReadEOF c = Some (Inr (readEOF c))"
| "step dl pb (ReadErr ex) c = Some (Inr (readErr ex c))"

fun exec ::
  "pdu_length_decoder \<Rightarrow> bser_parser \<Rightarrow> event list \<Rightarrow> conn \<Rightarrow> (fault + conn) option" where
  "exec dl pb [] c = Some (Inr c)"
| "exec dl pb (e # es) c =
     (case step dl pb e c of
        None \<Rightarrow> None
      | Some (Inl f) \<Rightarrow> Some (Inl f)
      | Some (Inr c') \<Rightarrow> exec dl pb es c')"

section \<open>A sample wire format\<close>

text \<open>
  A small wire format on which the statements below are run: a PDU is the byte 0, the
  number of payload bytes, and the payload. The payload of one byte selects a value.
\<close>

definition sample_decodePduLength :: pdu_length_decoder where
  "sample_decodePduLength buf =
     (case buf of
        [] \<Rightarrow> Inl OutOfRange
      | [m] \<Rightarrow> Inl OutOfRange
      | m # n # _ \<Rightarrow>
          if m \<noteq> 0 then Inl (RuntimeError ''invalid magic header'') else Inr (2 + unat n))"

definition sample_value :: "8 word \<Rightarrow> dynamic" where
  "sample_value t =
     (if t = 0 then DObject [(''subscription'', DString ''sub1''), (''files'', DArray [])]
      else if t = 1 then DObject [(''log'', DString ''line'')]
      else if t = 2 then DObject [(''version'', DString ''4.9.0''), (''capabilities'', DObject [])]
      else if t = 3 then DObject [(''version'', DString ''3.0.0'')]
      else if t = 4 then DObject [(''error'', DString ''unknown command'')]
      else DObject [(''clock'', DInt (uint t))])"

definition sample_parseBser :: bser_parser where
  "sample_parseBser pdu =
     (case drop 2 pdu of
        [t] \<Rightarrow> Inr (sample_value t)
      | _ \<Rightarrow> Inl (RuntimeError ''malformed payload''))"

text \<open>A connection whose transport is up, with and without a subscriber.\<close>

definition sample_conn :: "bool \<Rightarrow> conn" where
  "sample_conn cb = (init cb)\<lparr>sock := True\<rparr>"

text \<open>
  The connection after \<^verbatim>\<open>connect\<close> with empty arguments, the creation of the socket
  and two calls of \<^verbatim>\<open>run\<close>: both commands are queued and one send is posted.
\<close>

definition two_pending :: conn where
  "two_pending =
     (init True)\<lparr>sock := True, versionCmd := DArray [DString ''version'', DObject []],
       commandQ := [\<lparr>qid = 0, cmd = DString ''a''\<rparr>, \<lparr>qid = 1, cmd = DString ''b''\<rparr>],
       next_id := 2, sendTasks := 1\<rparr>"

text \<open>
  The connection after \<^verbatim>\<open>connect\<close> and the creation of the socket alone, and the one
  after the posted send has run.
\<close>

definition connected :: conn where
  "connected = (init True)\<lparr>sock := True, versionCmd := DArray [DString ''version'', DObject []]\<rparr>"


text \<open>
  What the handshake continuation puts into \<^verbatim>\<open>connectPromise_\<close> for a map without an
  "error" key: the map itself when it holds "capabilities", otherwise the exception that
  carries the map with the upgrade message stored under "error".
\<close>

definition handshake_result :: "(string \<times> dynamic) list \<Rightarrow> try_dynamic" where
  "handshake_result kvs =
     (if map_of kvs ''capabilities'' = None
      then Inl (WatchmanResponseError
             (DObject (AList.update ''error'' (DString upgrade_message) kvs)))
      else Inr (DObject kvs))"

section \<open>Streams of command responses\<close>

text \<open>
  What the statements about whole streams ask of the wire format. The buffer \<open>buf\<close> is
  not ready when \<^verbatim>\<open>splitNextPdu\<close> finds no complete PDU in it. The bytes \<open>p\<close> are one
  frame when the header decoder reads the length of \<open>p\<close> off every buffer that starts
  with \<open>p\<close>, and finds every shorter piece of \<open>p\<close> not ready.
\<close>

definition not_ready :: "pdu_length_decoder \<Rightarrow> bytes \<Rightarrow> bool" where
  "not_ready dl buf \<longleftrightarrow>
     buf = [] \<or> (case dl buf of Inl e \<Rightarrow> e = OutOfRange | Inr n \<Rightarrow> length buf < n)"

definition frames :: "pdu_length_decoder \<Rightarrow> bytes \<Rightarrow> bool" where
  "frames dl p \<longleftrightarrow>
     p \<noteq> [] \<and> (\<forall>rest. dl (p @ rest) = Inr (length p)) \<and>
     (\<forall>k<length p. not_ready dl (take k p))"

text \<open>A decoded value is a command response when it holds none of the marker keys.\<close>

definition command_response :: "dynamic \<Rightarrow> bool" where
  "command_response r \<longleftrightarrow> (\<forall>k\<in>set kUnilateralLabels. get_ptr r k = Inr None)"

text \<open>
  The effect of dispatching one command response with result \<open>t\<close> on a connection whose
  queue is not empty, as \<^verbatim>\<open>decodeNextResponse\<close> does it: the promise of the head is
  fulfilled, the head is popped, and the new head, if there is one, is written.
  \<open>respond\<close> does so for a list of results in order.
\<close>

definition respond1 :: "try_dynamic \<Rightarrow> conn \<Rightarrow> conn" where
  "respond1 t c =
     (settle (qid (hd (commandQ c))) t c)\<lparr>commandQ := tl (commandQ c),
        popped := Suc (popped c),
        written := written c @ map cmd (take 1 (tl (commandQ c)))\<rparr>"

fun respond :: "try_dynamic list \<Rightarrow> conn \<Rightarrow> conn" where
  "respond [] c = c"
| "respond (t # ts) c = respond ts (respond1 t c)"

section \<open>Failure events\<close>



section \<open>Invariants of a connection\<close>

text \<open>
  Three properties that hold of a new connection and that every event keeps:
  a closing connection is broken, a broken one has an empty queue, and commands are only
  queued while the socket exists;
  the queued commands are distinct objects with unfulfilled promises, and every address in
  use is below the next fresh one;
  the commands written plus the sends still posted exceed the responses dispatched by at
  most one, and by none while the queue of a working connection is empty.
\<close>

definition inv_flags :: "conn \<Rightarrow> bool" where
  "inv_flags c \<longleftrightarrow>
     (closing c \<longrightarrow> broken c) \<and> (broken c \<longrightarrow> commandQ c = []) \<and> (commandQ c \<noteq> [] \<longrightarrow> sock c)"

definition inv_ids :: "conn \<Rightarrow> bool" where
  "inv_ids c \<longleftrightarrow>
     distinct (map qid (commandQ c)) \<and>
     (\<forall>qc\<in>set (commandQ c). qid qc < next_id c \<and> \<not> isFulfilled c (qid qc)) \<and>
     (\<forall>p\<in>set (settled c). fst p < next_id c)"

definition inv_wire :: "conn \<Rightarrow> bool" where
  "inv_wire c \<longleftrightarrow>
     length (written c) + sendTasks c \<le> popped c + 1 \<and>
     (commandQ c = [] \<and> \<not> broken c \<longrightarrow> length (written c) + sendTasks c \<le> popped c)"

section \<open>What each operation leaves alone\<close>

text \<open>
  The handshake continuation touches \<open>connectPromise\<close> only, so fulfilling a promise
  changes \<open>settled\<close> and \<open>connectPromise\<close> and nothing else.
\<close>

lemma connectPromise_set_only:
  "connectPromise_set t c = Inr c' \<Longrightarrow> c' = c\<lparr>connectPromise := connectPromise c'\<rparr>"
  by (auto simp: connectPromise_set_def split: option.splits)

lemma versionOnError_only:
  "versionOnError e c = c\<lparr>connectPromise := connectPromise (versionOnError e c)\<rparr>"
  by (auto simp: versionOnError_def connectPromise_set_def split: option.splits sum.splits)

lemma versionThen_only:
  "versionThen r c = Inr c' \<Longrightarrow> c' = c\<lparr>connectPromise := connectPromise c'\<rparr>"
  by (auto simp: versionThen_def split: option.splits sum.splits dest: connectPromise_set_only)

lemma versionContinuation_only:
  "versionContinuation t c = c\<lparr>connectPromise := connectPromise (versionContinuation t c)\<rparr>"
proof (cases t)
  case (Inl e)
  then show ?thesis using versionOnError_only [of e c] by (simp add: versionContinuation_def)
next
  case (Inr r)
  show ?thesis
  proof (cases "versionThen r c")
    case (Inl e)
    then show ?thesis using Inr versionOnError_only [of e c] by (simp add: versionContinuation_def)
  next
    case (Inr c')
    then show ?thesis using \<open>t = Inr r\<close> versionThen_only [of r c c'] by (simp add: versionContinuation_def)
  qed
qed

lemma connectPromise_set_shape:
  "connectPromise_set t c = Inr c' \<Longrightarrow>
     connectPromise c = None \<and> c' = c\<lparr>connectPromise := Some t\<rparr>"
  by (auto simp: connectPromise_set_def split: option.splits)

lemma versionContinuation_cases:
  "versionContinuation t c = c \<or>
   (connectPromise c = None \<and> (\<exists>x. versionContinuation t c = c\<lparr>connectPromise := Some x\<rparr>))"
  by (auto simp: versionContinuation_def versionOnError_def versionThen_def
      split: sum.splits option.splits dest!: connectPromise_set_shape)

lemma versionContinuation_resolved:
  "connectPromise c \<noteq> None \<Longrightarrow> versionContinuation t c = c"
  using versionContinuation_cases [of t c] by auto

lemma settle_only:
  "settle i t c = c\<lparr>settled := settled c @ [(i, t)], connectPromise := connectPromise (settle i t c)\<rparr>"
proof -
  let ?c' = "c\<lparr>settled := settled c @ [(i, t)]\<rparr>"
  show ?thesis
  proof (cases "versionId c = Some i")
    case True
    then have "settle i t c = versionContinuation t ?c'" by (simp add: settle_def)
    then show ?thesis using versionContinuation_only [of t ?c'] by simp
  next
    case False
    then show ?thesis by (simp add: settle_def)
  qed
qed

lemma settle_fields [simp]:
  "sock (settle i t c) = sock c"
  "readCB (settle i t c) = readCB c"
  "callback (settle i t c) = callback c"
  "broken (settle i t c) = broken c"
  "closing (settle i t c) = closing c"
  "decoding (settle i t c) = decoding c"
  "commandQ (settle i t c) = commandQ c"
  "bufQ (settle i t c) = bufQ c"
  "versionCmd (settle i t c) = versionCmd c"
  "versionId (settle i t c) = versionId c"
  "next_id (settle i t c) = next_id c"
  "sendTasks (settle i t c) = sendTasks c"
  "settled (settle i t c) = settled c @ [(i, t)]"
  "written (settle i t c) = written c"
  "notified (settle i t c) = notified c"
  "popped (settle i t c) = popped c"
  by (subst settle_only, simp)+

lemma isFulfilled_settle [simp]:
  "isFulfilled (settle i t c) j \<longleftrightarrow> j = i \<or> isFulfilled c j"
  by (auto simp: isFulfilled_def)

lemma failPromises_fields [simp]:
  "sock (failPromises ex q c) = sock c"
  "readCB (failPromises ex q c) = readCB c"
  "callback (failPromises ex q c) = callback c"
  "broken (failPromises ex q c) = broken c"
  "closing (failPromises ex q c) = closing c"
  "decoding (failPromises ex q c) = decoding c"
  "commandQ (failPromises ex q c) = commandQ c"
  "bufQ (failPromises ex q c) = bufQ c"
  "versionCmd (failPromises ex q c) = versionCmd c"
  "versionId (failPromises ex q c) = versionId c"
  "next_id (failPromises ex q c) = next_id c"
  "sendTasks (failPromises ex q c) = sendTasks c"
  "written (failPromises ex q c) = written c"
  "notified (failPromises ex q c) = notified c"
  "popped (failPromises ex q c) = popped c"
  by (induction q arbitrary: c; simp)+

lemma failPromises_settled:
  "distinct (map qid q) \<Longrightarrow> \<forall>qc\<in>set q. \<not> isFulfilled c (qid qc) \<Longrightarrow>
   settled (failPromises ex q c) = settled c @ map (\<lambda>qc. (qid qc, Inl ex)) q"
proof (induction q arbitrary: c)
  case Nil
  then show ?case by simp
next
  case (Cons qc q)
  let ?c' = "settle (qid qc) (Inl ex) c"
  have "qid x \<noteq> qid qc" if "x \<in> set q" for x
    using that Cons.prems(1) by (metis distinct.simps(2) image_eqI list.simps(9) set_map)
  then have "\<forall>x\<in>set q. \<not> isFulfilled ?c' (qid x)" using Cons.prems(2) by simp
  moreover have "distinct (map qid q)" using Cons.prems by simp
  ultimately have "settled (failPromises ex q ?c') = settled ?c' @ map (\<lambda>qc. (qid qc, Inl ex)) q"
    by (rule Cons.IH [rotated])
  then show ?case using Cons.prems by simp
qed

lemma failPromises_prefix:
  "\<exists>ys. settled (failPromises ex q c) = settled c @ ys \<and> fst ` set ys \<subseteq> qid ` set q"
proof (induction q arbitrary: c)
  case Nil
  then show ?case by simp
next
  case (Cons qc q)
  show ?case
  proof (cases "isFulfilled c (qid qc)")
    case True
    then show ?thesis using Cons.IH [of c] by auto
  next
    case False
    obtain ys where "settled (failPromises ex q (settle (qid qc) (Inl ex) c)) = settled (settle (qid qc) (Inl ex) c) @ ys" "fst ` set ys \<subseteq> qid ` set q"
      using Cons.IH [of "settle (qid qc) (Inl ex) c"] by blast
    then show ?thesis using False by auto
  qed
qed

lemma failQueuedCommands_fields [simp]:
  "sock (failQueuedCommands ex c) = sock c"
  "readCB (failQueuedCommands ex c) = readCB c"
  "callback (failQueuedCommands ex c) = callback c"
  "broken (failQueuedCommands ex c) = True"
  "closing (failQueuedCommands ex c) = closing c"
  "decoding (failQueuedCommands ex c) = decoding c"
  "commandQ (failQueuedCommands ex c) = []"
  "bufQ (failQueuedCommands ex c) = bufQ c"
  "versionCmd (failQueuedCommands ex c) = versionCmd c"
  "versionId (failQueuedCommands ex c) = versionId c"
  "next_id (failQueuedCommands ex c) = next_id c"
  "sendTasks (failQueuedCommands ex c) = sendTasks c"
  "written (failQueuedCommands ex c) = written c"
  "popped (failQueuedCommands ex c) = popped c"
  by (simp_all add: failQueuedCommands_def Let_def)

lemma failQueuedCommands_notified:
  "notified (failQueuedCommands ex c) =
     notified c @ (if callback c \<and> \<not> closing c then [Inl ex] else [])"
  by (simp add: failQueuedCommands_def Let_def)

lemma failQueuedCommands_settled:
  "distinct (map qid (commandQ c)) \<Longrightarrow> \<forall>qc\<in>set (commandQ c). \<not> isFulfilled c (qid qc) \<Longrightarrow>
   settled (failQueuedCommands ex c) = settled c @ map (\<lambda>qc. (qid qc, Inl ex)) (commandQ c)"
  using failPromises_settled [of "commandQ c" "c\<lparr>commandQ := [], broken := True\<rparr>" ex]
  by (simp add: failQueuedCommands_def Let_def isFulfilled_def)

section \<open>Invariants along the decode loop\<close>

text \<open>
  A property that ignores the buffer and that one dispatch keeps is kept by the whole loop,
  whenever the loop ends.
\<close>

lemma splitNextPdu_shape:
  "splitNextPdu dl c = Inr (x, c') \<Longrightarrow> c' = c\<lparr>bufQ := bufQ c'\<rparr>"
  by (auto simp: splitNextPdu_def split: if_splits sum.splits exn.splits)

lemma decodeLoop_preserves:
  assumes buf: "\<And>c b. I c \<Longrightarrow> I (c\<lparr>bufQ := b\<rparr>)"
    and cont: "\<And>c pdu c'. I c \<Longrightarrow> dispatchPdu pb pdu c = Continue c' \<Longrightarrow> I c'"
    and stop: "\<And>c pdu c'. I c \<Longrightarrow> dispatchPdu pb pdu c = Stop c' \<Longrightarrow> I c'"
    and run: "decodeLoop dl pb c = Some (Inr c')" and start: "I c"
  shows "I c'"
proof -
  let ?P = "\<lambda>d p c (r :: fault + conn). d = dl \<longrightarrow> p = pb \<longrightarrow> (\<forall>c'. r = Inr c' \<longrightarrow> I c \<longrightarrow> I c')"
  have "?P dl pb c (Inr c')"
  proof (rule decodeLoop.raw_induct [where P = ?P, OF _ run])
    fix f d p s r
    assume IH: "\<And>d p s r. f d p s = Some r \<Longrightarrow> ?P d p s r"
      and body: "(case splitNextPdu d s of Inl e \<Rightarrow> Some (Inl (Uncaught e))
          | Inr (None, c') \<Rightarrow> Some (Inr c')
          | Inr (Some pdu, c') \<Rightarrow>
              (case dispatchPdu p pdu c' of Continue c'' \<Rightarrow> f d p c''
               | Stop c'' \<Rightarrow> Some (Inr c'') | Abort f \<Rightarrow> Some (Inl f))) = Some r"
    show "?P d p s r"
    proof (intro impI allI)
      fix s'
      assume d: "d = dl" and p: "p = pb" and r: "r = Inr s'" and I: "I s"
      show "I s'"
      proof (cases "splitNextPdu d s")
        case (Inl e)
        then show ?thesis using body r by simp
      next
        case (Inr xs)
        obtain x s1 where xs: "xs = (x, s1)" by (cases xs)
        have I1: "I s1"
          using splitNextPdu_shape [of d s x s1] Inr xs buf [OF I, of "bufQ s1"] by simp
        show ?thesis
        proof (cases x)
          case None
          then show ?thesis using body r Inr xs I1 by simp
        next
          case (Some pdu)
          show ?thesis
          proof (cases "dispatchPdu p pdu s1")
            case (Continue s2)
            then have "f d p s2 = Some r" using body Inr xs Some by simp
            moreover have "I s2" using cont [OF I1, of pdu s2] Continue p by simp
            ultimately show ?thesis using IH [of d p s2 r] d p r by simp
          next
            case (Stop s2)
            then have "s' = s2" using body Inr xs Some r by simp
            then show ?thesis using stop [OF I1, of pdu s2] Stop p by simp
          next
            case (Abort x3)
            then show ?thesis using body Inr xs Some r by simp
          qed
        qed
      qed
    qed
  qed
  then show ?thesis using start by simp
qed

section \<open>The shape of one dispatch\<close>

lemma checkUnilateral_Delivered:
  "checkUnilateral ks d c = Inr (Delivered c') \<Longrightarrow>
     callback c \<and> (\<exists>k\<in>set ks. \<exists>v. get_ptr d k = Inr (Some v)) \<and>
     (\<exists>t. watchmanResponseToTry d = Inr t \<and> c' = c\<lparr>notified := notified c @ [t]\<rparr>)"
  by (induction ks) (auto split: sum.splits option.splits if_splits)

lemma checkUnilateral_NoCallback:
  "checkUnilateral ks d c = Inr (NoCallback c') \<Longrightarrow>
     \<not> callback c \<and> (\<exists>k\<in>set ks. \<exists>v. get_ptr d k = Inr (Some v)) \<and>
     c' = failQueuedCommands (RuntimeError ''No unilateral callback has been installed'') c"
  by (induction ks) (auto split: sum.splits option.splits if_splits)

lemma checkUnilateral_NotUnilateral:
  "checkUnilateral ks d c = Inr NotUnilateral \<longleftrightarrow> (\<forall>k\<in>set ks. get_ptr d k = Inr None)"
  by (induction ks) (auto split: sum.splits option.splits if_splits)

lemma sendCommand_pop_shape:
  "sendCommand True c = Inr c' \<Longrightarrow>
     commandQ c \<noteq> [] \<and> (tl (commandQ c) \<noteq> [] \<longrightarrow> sock c) \<and>
     c' = c\<lparr>commandQ := tl (commandQ c), popped := Suc (popped c),
            written := written c @ map cmd (take 1 (tl (commandQ c)))\<rparr>"
  by (auto simp: sendCommand_def Let_def split: if_splits list.splits)

lemma sendCommand_nopop_shape:
  "sendCommand False c = Inr c' \<Longrightarrow>
     (commandQ c \<noteq> [] \<longrightarrow> sock c) \<and> c' = c\<lparr>written := written c @ map cmd (take 1 (commandQ c))\<rparr>"
  by (auto simp: sendCommand_def Let_def split: if_splits list.splits)

lemma dispatchPdu_Stop:
  "dispatchPdu pb pdu c = Stop c' \<Longrightarrow> \<exists>ex. c' = failQueuedCommands ex c"
  by (auto simp: dispatchPdu_def decodeBody_def popAndSendCommand_def
      split: sum.splits unilateral.splits list.splits dest: checkUnilateral_NoCallback)

lemma dispatchPdu_Continue:
  assumes "dispatchPdu pb pdu c = Continue c'"
  shows "(\<exists>t. callback c \<and> c' = c\<lparr>notified := notified c @ [t]\<rparr>) \<or>
         (\<exists>qc q t. commandQ c = qc # q \<and> \<not> isFulfilled c (qid qc) \<and>
            sendCommand True (settle (qid qc) t c) = Inr c')"
proof -
  from assms obtain r where body: "decodeBody pb pdu c = Inr (Continue c')"
    by (auto simp: dispatchPdu_def split: sum.splits)
  then obtain d where d: "pb pdu = Inr d"
    by (auto simp: decodeBody_def split: sum.splits)
  then obtain u where u: "checkUnilateral kUnilateralLabels d c = Inr u"
    using body by (auto simp: decodeBody_def split: sum.splits)
  show ?thesis
  proof (cases u)
    case NotUnilateral
    then show ?thesis using body d u
      by (auto simp: decodeBody_def promise_setTry_def popAndSendCommand_def
          split: sum.splits list.splits if_splits)
  next
    case (Delivered c1)
    then have "c1 = c'" using body d u by (simp add: decodeBody_def)
    then show ?thesis using checkUnilateral_Delivered [of kUnilateralLabels d c c1] u Delivered by auto
  next
    case (NoCallback c1)
    then show ?thesis using body d u by (simp add: decodeBody_def)
  qed
qed

section \<open>Invariants along an execution\<close>

lemma step_preserves:
  assumes buf: "\<And>c b. I c \<Longrightarrow> I (c\<lparr>bufQ := b\<rparr>)"
    and dec: "\<And>c b. I c \<Longrightarrow> I (c\<lparr>decoding := b\<rparr>)"
    and cp: "\<And>c x. I c \<Longrightarrow> connectPromise c = None \<Longrightarrow> I (c\<lparr>connectPromise := Some x\<rparr>)"
    and vid: "\<And>c x. I c \<Longrightarrow> I (c\<lparr>versionId := x\<rparr>)"
    and conn: "\<And>c x n. I c \<Longrightarrow> I (c\<lparr>versionCmd := x, openTasks := n\<rparr>)"
    and opn: "\<And>c n. I c \<Longrightarrow> I (c\<lparr>openTasks := n\<rparr>)"
    and sk: "\<And>c. I c \<Longrightarrow> I (c\<lparr>sock := True, readCB := False\<rparr>)"
    and rcb: "\<And>c. I c \<Longrightarrow> I (c\<lparr>readCB := True\<rparr>)"
    and fail: "\<And>c ex. I c \<Longrightarrow> I (failQueuedCommands ex c)"
    and run: "\<And>c command. I c \<Longrightarrow> I (snd (run command c))"
    and clo: "\<And>c. I c \<Longrightarrow> I (close c)"
    and send: "\<And>c c'. I c \<Longrightarrow> 0 < sendTasks c \<Longrightarrow>
                 sendCommand False (c\<lparr>sendTasks := sendTasks c - 1\<rparr>) = Inr c' \<Longrightarrow> I c'"
    and notify: "\<And>c t. I c \<Longrightarrow> I (c\<lparr>notified := notified c @ [t]\<rparr>)"
    and resp: "\<And>c qc q t c'. I c \<Longrightarrow> commandQ c = qc # q \<Longrightarrow> \<not> isFulfilled c (qid qc) \<Longrightarrow>
                 sendCommand True (settle (qid qc) t c) = Inr c' \<Longrightarrow> I c'"
    and start: "I c" and stp: "step dl pb e c = Some (Inr c')"
  shows "I c'"
proof (cases e)
  case (Connect args)
  then show ?thesis using stp start conn [OF start] by (auto simp: connect_def split: if_splits)
next
  case OpenSocket
  let ?c0 = "c\<lparr>openTasks := openTasks c - 1\<rparr>"
  have I0: "I ?c0" using opn [OF start] .
  have "I (openSocket ?c0)"
    using sk [OF I0] sk [OF fail [OF I0, of "SystemError ENOTCONN ''connection closed''"]]
    by (simp add: openSocket_def socketClose_def readEOF_def)
  then show ?thesis using stp start OpenSocket by (auto split: if_splits)
next
  case ConnectSuccess
  let ?c0 = "c\<lparr>readCB := True\<rparr>"
  obtain i c1 where r: "run (versionCmd ?c0) ?c0 = (i, c1)" by (cases "run (versionCmd ?c0) ?c0")
  have I1: "I c1" using run [OF rcb [OF start], of "versionCmd ?c0"] r by simp
  show ?thesis
  proof (cases "map_of (settled c1) i")
    case None
    then show ?thesis using stp ConnectSuccess r vid [OF I1]
      by (auto simp: connectSuccess_def Let_def split: if_splits)
  next
    case (Some t)
    then have "c' = versionContinuation t c1" using stp ConnectSuccess r
      by (auto simp: connectSuccess_def Let_def split: if_splits)
    then show ?thesis using versionContinuation_cases [of t c1] cp [OF I1] I1 by metis
  qed
next
  case (ConnectErr ex)
  then have "connectPromise_set (Inl ex) c = Inr c'" using stp
    by (auto simp: connectErr_def split: sum.splits)
  then show ?thesis using connectPromise_set_shape [of "Inl ex" c c'] cp [OF start] by metis
next
  case (Run command)
  then show ?thesis using stp run [OF start] by auto
next
  case Close
  then show ?thesis using stp clo [OF start] by auto
next
  case SendTask
  then show ?thesis using stp start send [OF start] by (auto split: if_splits)
next
  case (ReadData bs)
  let ?c0 = "postallocate bs c"
  have I0: "I ?c0" using buf [OF start] by (simp add: postallocate_def)
  show ?thesis
  proof (cases "decoding ?c0")
    case True
    then show ?thesis using stp ReadData I0
      by (simp add: readDataAvailable_def decodeNextResponse_def)
  next
    case False
    then obtain c1 where loop: "decodeLoop dl pb (?c0\<lparr>decoding := True\<rparr>) = Some (Inr c1)"
      and c': "c' = c1\<lparr>decoding := False\<rparr>"
      using stp ReadData
      by (auto simp: readDataAvailable_def decodeNextResponse_def split: option.splits sum.splits)
    have "I c1"
    proof (rule decodeLoop_preserves [where I = I, OF _ _ _ loop])
      show "I (?c0\<lparr>decoding := True\<rparr>)" using dec [OF I0] .
    next
      fix s b assume "I s" then show "I (s\<lparr>bufQ := b\<rparr>)" by (rule buf)
    next
      fix s pdu s' assume s: "I s" and d: "dispatchPdu pb pdu s = Continue s'"
      from dispatchPdu_Continue [OF d] show "I s'"
        using notify [OF s] resp [OF s] by blast
    next
      fix s pdu s' assume s: "I s" and d: "dispatchPdu pb pdu s = Stop s'"
      from dispatchPdu_Stop [OF d] show "I s'" using fail [OF s] by blast
    qed
    then show ?thesis using c' dec by simp
  qed
next
  case (WriteErr ex)
  then show ?thesis using stp fail [OF start] by (auto simp: writeErr_def)
next
  case ReadEOF
  then show ?thesis using stp fail [OF start] by (auto simp: readEOF_def)
next
  case (ReadErr ex)
  then show ?thesis using stp fail [OF start] by (auto simp: readErr_def)
qed

lemma exec_preserves:
  assumes "\<And>e c c'. I c \<Longrightarrow> step dl pb e c = Some (Inr c') \<Longrightarrow> I c'"
  shows "I c \<Longrightarrow> exec dl pb es c = Some (Inr c') \<Longrightarrow> I c'"
proof (induction es arbitrary: c)
  case Nil
  then show ?case by simp
next
  case (Cons e es)
  then obtain c1 where s: "step dl pb e c = Some (Inr c1)" and r: "exec dl pb es c1 = Some (Inr c')"
    by (auto split: option.splits sum.splits)
  have "I c1" using assms [OF Cons.prems(1) s] .
  then show ?case using Cons.IH r by blast
qed

lemma failQueuedCommands_settled_prefix:
  "\<exists>ys. settled (failQueuedCommands ex c) = settled c @ ys \<and> fst ` set ys \<subseteq> qid ` set (commandQ c)"
  using failPromises_prefix [of ex "commandQ c" "c\<lparr>commandQ := [], broken := True\<rparr>"]
  by (simp add: failQueuedCommands_def Let_def)

lemma close_shape:
  "close c =
     (if closing c then c
      else failQueuedCommands close_error
             (if sock c then socketClose (c\<lparr>closing := True\<rparr>) else c\<lparr>closing := True\<rparr>))"
  by (simp add: close_def Let_def)

lemma socketClose_fields [simp]:
  "sock (socketClose c) = False"
  "readCB (socketClose c) = False"
  "callback (socketClose c) = callback c"
  "closing (socketClose c) = closing c"
  "decoding (socketClose c) = decoding c"
  "bufQ (socketClose c) = bufQ c"
  "versionCmd (socketClose c) = versionCmd c"
  "versionId (socketClose c) = versionId c"
  "next_id (socketClose c) = next_id c"
  "sendTasks (socketClose c) = sendTasks c"
  "written (socketClose c) = written c"
  "popped (socketClose c) = popped c"
  "broken (socketClose c) = (readCB c \<or> broken c)"
  "commandQ (socketClose c) = (if readCB c then [] else commandQ c)"
  by (simp_all add: socketClose_def readEOF_def)

lemma socketClose_notified:
  "closing c \<Longrightarrow> notified (socketClose c) = notified c"
  by (simp add: socketClose_def readEOF_def failQueuedCommands_notified)

lemma inv_flags_fail: "inv_flags (failQueuedCommands ex c)"
  by (simp add: inv_flags_def)

lemma inv_flags_step:
  assumes "inv_flags c" and "step dl pb e c = Some (Inr c')"
  shows "inv_flags c'"
proof (rule step_preserves [where I = inv_flags, OF _ _ _ _ _ _ _ _ _ _ _ _ _ _ assms])
  fix c :: conn and command assume "inv_flags c"
  then show "inv_flags (snd (run command c))" by (auto simp: inv_flags_def run_def Let_def)
next
  fix c :: conn assume "inv_flags c"
  then show "inv_flags (close c)" using inv_flags_fail by (simp add: close_shape)
next
  fix c c' :: conn
  assume "inv_flags c" and "sendCommand False (c\<lparr>sendTasks := sendTasks c - 1\<rparr>) = Inr c'"
  then show "inv_flags c'" using sendCommand_nopop_shape [of "c\<lparr>sendTasks := sendTasks c - 1\<rparr>" c']
    by (auto simp: inv_flags_def)
next
  fix c c' :: conn and qc q t
  assume "inv_flags c" and "commandQ c = qc # q" and "sendCommand True (settle (qid qc) t c) = Inr c'"
  then show "inv_flags c'" using sendCommand_pop_shape [of "settle (qid qc) t c" c']
    by (auto simp: inv_flags_def)
qed (auto simp: inv_flags_def)

lemma inv_wire_step:
  assumes "inv_wire c" and "step dl pb e c = Some (Inr c')"
  shows "inv_wire c'"
proof (rule step_preserves [where I = inv_wire, OF _ _ _ _ _ _ _ _ _ _ _ _ _ _ assms])
  fix c :: conn and command assume "inv_wire c"
  then show "inv_wire (snd (run command c))" by (auto simp: inv_wire_def run_def Let_def)
next
  fix c :: conn assume "inv_wire c"
  then show "inv_wire (close c)" by (simp add: close_shape inv_wire_def)
next
  fix c c' :: conn
  assume "inv_wire c" and "0 < sendTasks c" and "sendCommand False (c\<lparr>sendTasks := sendTasks c - 1\<rparr>) = Inr c'"
  then show "inv_wire c'" using sendCommand_nopop_shape [of "c\<lparr>sendTasks := sendTasks c - 1\<rparr>" c']
    by (cases "commandQ c") (auto simp: inv_wire_def)
next
  fix c c' :: conn and qc q t
  assume "inv_wire c" and "commandQ c = qc # q" and "sendCommand True (settle (qid qc) t c) = Inr c'"
  then show "inv_wire c'" using sendCommand_pop_shape [of "settle (qid qc) t c" c']
    by (cases q) (auto simp: inv_wire_def)
qed (auto simp: inv_wire_def)

lemma inv_ids_fail: "inv_ids c \<Longrightarrow> inv_ids (failQueuedCommands ex c)"
proof -
  assume a: "inv_ids c"
  obtain ys where ys: "settled (failQueuedCommands ex c) = settled c @ ys"
    "fst ` set ys \<subseteq> qid ` set (commandQ c)"
    using failQueuedCommands_settled_prefix by blast
  have "fst p < next_id c" if "p \<in> set ys" for p
    using that ys(2) a by (auto simp: inv_ids_def)
  then show ?thesis using a ys(1) by (auto simp: inv_ids_def)
qed

lemma inv_ids_run:
  assumes a: "inv_ids c"
  shows "inv_ids (snd (run command c))"
proof -
  have f1: "qid qc \<noteq> next_id c" if "qc \<in> set (commandQ c)" for qc
    using that a by (auto simp: inv_ids_def)
  have f2: "fst p \<noteq> next_id c" if "p \<in> set (settled c)" for p
    using that a by (auto simp: inv_ids_def)
  have f3: "qid qc < Suc (next_id c)" if "qc \<in> set (commandQ c)" for qc
    using that a by (auto simp: inv_ids_def less_Suc_eq)
  have f4: "fst p < Suc (next_id c)" if "p \<in> set (settled c)" for p
    using that a by (auto simp: inv_ids_def less_Suc_eq)
  have f5: "\<not> isFulfilled c (qid qc)" if "qc \<in> set (commandQ c)" for qc
    using that a by (auto simp: inv_ids_def)
  have f6: "distinct (map qid (commandQ c))" using a by (simp add: inv_ids_def)
  have f7: "map_of (settled c) (next_id c) = None"
    using f2 by (force simp: map_of_eq_None_iff)
  have f8: "next_id c \<notin> qid ` set (commandQ c)" using f1 by force
  show ?thesis
  proof (cases "broken c \<or> \<not> sock c")
    case True
    then show ?thesis using f1 f3 f4 f5 f6
      by (auto simp: inv_ids_def run_def Let_def isFulfilled_def)
  next
    case False
    then show ?thesis using f3 f4 f5 f6 f7 f8
      by (auto simp: inv_ids_def run_def Let_def isFulfilled_def)
  qed
qed

lemma inv_ids_resp:
  assumes a: "inv_ids c" and q: "commandQ c = qc # q"
    and s: "sendCommand True (settle (qid qc) t c) = Inr c'"
  shows "inv_ids c'"
proof -
  have c': "c' = (settle (qid qc) t c)\<lparr>commandQ := q, popped := Suc (popped c),
            written := written c @ map cmd (take 1 q)\<rparr>"
    using sendCommand_pop_shape [OF s] q by simp
  have "qid qc \<notin> qid ` set q" using a q by (simp add: inv_ids_def)
  then have "qid x \<noteq> qid qc" if "x \<in> set q" for x
    using that by (metis imageI)
  then show ?thesis using a q by (auto simp: c' inv_ids_def isFulfilled_def)
qed

lemma inv_ids_step:
  assumes "inv_ids c" and "step dl pb e c = Some (Inr c')"
  shows "inv_ids c'"
proof (rule step_preserves [where I = inv_ids, OF _ _ _ _ _ _ _ _ _ _ _ _ _ _ assms])
  fix c :: conn and ex assume "inv_ids c"
  then show "inv_ids (failQueuedCommands ex c)" by (rule inv_ids_fail)
next
  fix c :: conn and command assume "inv_ids c"
  then show "inv_ids (snd (run command c))" by (rule inv_ids_run)
next
  fix c :: conn assume a: "inv_ids c"
  then have b: "inv_ids (c\<lparr>closing := True\<rparr>)" by (simp add: inv_ids_def isFulfilled_def)
  have upd: "inv_ids (s\<lparr>sock := False, readCB := False\<rparr>)" if "inv_ids s" for s :: conn
    using that by (simp add: inv_ids_def isFulfilled_def)
  have "inv_ids (socketClose (c\<lparr>closing := True\<rparr>))"
    using b inv_ids_fail [OF b] upd by (simp add: socketClose_def readEOF_def)
  then show "inv_ids (close c)" using a b inv_ids_fail by (simp add: close_shape)
next
  fix c c' :: conn
  assume "inv_ids c" and "sendCommand False (c\<lparr>sendTasks := sendTasks c - 1\<rparr>) = Inr c'"
  then show "inv_ids c'" using sendCommand_nopop_shape [of "c\<lparr>sendTasks := sendTasks c - 1\<rparr>" c']
    by (auto simp: inv_ids_def isFulfilled_def)
next
  fix c c' :: conn and qc q t
  assume "inv_ids c" and "commandQ c = qc # q" and "sendCommand True (settle (qid qc) t c) = Inr c'"
  then show "inv_ids c'" by (rule inv_ids_resp)
qed (auto simp: inv_ids_def isFulfilled_def)

lemma inv_init: "inv_flags (init cb)" "inv_ids (init cb)" "inv_wire (init cb)"
  by (simp_all add: init_def inv_flags_def inv_ids_def inv_wire_def)

lemma reachable_inv:
  assumes "exec dl pb es (init cb) = Some (Inr c)"
  shows "inv_flags c" "inv_ids c" "inv_wire c"
proof -
  show "inv_flags c"
    by (rule exec_preserves [where I = inv_flags, OF inv_flags_step inv_init(1) assms])
  show "inv_ids c"
    by (rule exec_preserves [where I = inv_ids, OF inv_ids_step inv_init(2) assms])
  show "inv_wire c"
    by (rule exec_preserves [where I = inv_wire, OF inv_wire_step inv_init(3) assms])
qed

section \<open>Calling run\<close>

lemma run_broken:
  "broken c \<Longrightarrow> run command c =
     (next_id c, c\<lparr>next_id := Suc (next_id c),
        settled := settled c @ [(next_id c, Inl (WatchmanError ''The connection was broken''))]\<rparr>)"
  by (simp add: run_def Let_def)

text \<open>
  Claim C6. \<^verbatim>\<open>run\<close> always returns the future of a new command. On a broken connection
  the future is failed at once with "The connection was broken", whether or not a socket
  exists; otherwise, without a socket, it is failed at once with "No socket ..."; otherwise
  the command joins the end of the queue, its future stays open, and a send is posted when
  the queue was empty. \<^verbatim>\<open>run\<close> is a total function: nothing is thrown to the caller.
\<close>

theorem run_preconditions:
  "(broken c \<longrightarrow> run command c =
      (next_id c, c\<lparr>next_id := Suc (next_id c),
         settled := settled c @ [(next_id c, Inl (WatchmanError ''The connection was broken''))]\<rparr>)) \<and>
   (\<not> broken c \<and> \<not> sock c \<longrightarrow> run command c =
      (next_id c, c\<lparr>next_id := Suc (next_id c),
         settled := settled c @ [(next_id c, Inl (WatchmanError
           ''No socket (did you call connect() and check result for exceptions?)''))]\<rparr>)) \<and>
   (\<not> broken c \<and> sock c \<longrightarrow> run command c =
      (next_id c, c\<lparr>next_id := Suc (next_id c),
         commandQ := commandQ c @ [\<lparr>qid = next_id c, cmd = command\<rparr>],
         sendTasks := (if commandQ c = [] then Suc (sendTasks c) else sendTasks c)\<rparr>))"
  by (simp add: run_def Let_def)

theorem run_preconditions_witness:
  "broken ((init True)\<lparr>broken := True\<rparr>) \<and> \<not> sock ((init True)\<lparr>broken := True\<rparr>) \<and>
   settled (snd (run (DString ''clock'') ((init True)\<lparr>broken := True\<rparr>))) =
     [(0, Inl (WatchmanError ''The connection was broken''))] \<and>
   \<not> broken (init True) \<and> \<not> sock (init True) \<and>
   settled (snd (run (DString ''clock'') (init True))) =
     [(0, Inl (WatchmanError ''No socket (did you call connect() and check result for exceptions?)''))] \<and>
   \<not> broken (sample_conn True) \<and> sock (sample_conn True) \<and>
   commandQ (snd (run (DString ''clock'') (sample_conn True))) = [\<lparr>qid = 0, cmd = DString ''clock''\<rparr>] \<and>
   settled (snd (run (DString ''clock'') (sample_conn True))) = []"
  using run_preconditions [of "(init True)\<lparr>broken := True\<rparr>" "DString ''clock''"]
    run_preconditions [of "init True" "DString ''clock''"]
    run_preconditions [of "sample_conn True" "DString ''clock''"]
  by (simp add: init_def sample_conn_def)

section \<open>Failure propagation and the subscriber\<close>








section \<open>Closing\<close>

text \<open>
  Claim C5, at the input where the code misses it. After a completed handshake two commands
  are queued and \<^verbatim>\<open>close\<close> is called. The queue ends empty and the subscriber is not
  called, but both futures are failed by the \<^verbatim>\<open>readEOF\<close> that runs inside the socket's
  close, with "connection closed", and the failure with
  "WatchmanConnection::close() was called" that \<^verbatim>\<open>close\<close> prepares finds no command left.
\<close>

theorem close_after_handshake_reports_eof:
  "map_option (map_sum id settled)
     (exec sample_decodePduLength sample_parseBser
        [Connect (DObject []), OpenSocket, ConnectSuccess, SendTask, ReadData [0, 1, 2],
         Run (DString ''a''), Run (DString ''b''), Close] (init True)) =
   Some (Inr [(0, Inr (sample_value 2)),
              (1, Inl (SystemError ENOTCONN ''connection closed'')),
              (2, Inl (SystemError ENOTCONN ''connection closed''))]) \<and>
   map_option (map_sum id commandQ)
     (exec sample_decodePduLength sample_parseBser
        [Connect (DObject []), OpenSocket, ConnectSuccess, SendTask, ReadData [0, 1, 2],
         Run (DString ''a''), Run (DString ''b'')] (init True)) =
   Some (Inr [\<lparr>qid = 1, cmd = DString ''a''\<rparr>, \<lparr>qid = 2, cmd = DString ''b''\<rparr>]) \<and>
   map_option (map_sum id commandQ)
     (exec sample_decodePduLength sample_parseBser
        [Connect (DObject []), OpenSocket, ConnectSuccess, SendTask, ReadData [0, 1, 2],
         Run (DString ''a''), Run (DString ''b''), Close] (init True)) =
   Some (Inr []) \<and>
   map_option (map_sum id notified)
     (exec sample_decodePduLength sample_parseBser
        [Connect (DObject []), OpenSocket, ConnectSuccess, SendTask, ReadData [0, 1, 2],
         Run (DString ''a''), Run (DString ''b''), Close] (init True)) =
   Some (Inr []) \<and>
   close_error = WatchmanError ''WatchmanConnection::close() was called''"
  by code_simp

section \<open>Writes and the queue\<close>

lemma versionContinuation_fields [simp]:
  "written (versionContinuation t c) = written c"
  "sendTasks (versionContinuation t c) = sendTasks c"
  "commandQ (versionContinuation t c) = commandQ c"
  "popped (versionContinuation t c) = popped c"
  by (subst versionContinuation_only, simp)+

lemma run_fields [simp]:
  "written (snd (run command c)) = written c"
  "popped (snd (run command c)) = popped c"
  "sock (snd (run command c)) = sock c"
  "readCB (snd (run command c)) = readCB c"
  "callback (snd (run command c)) = callback c"
  "broken (snd (run command c)) = broken c"
  "closing (snd (run command c)) = closing c"
  "decoding (snd (run command c)) = decoding c"
  "bufQ (snd (run command c)) = bufQ c"
  "notified (snd (run command c)) = notified c"
  "connectPromise (snd (run command c)) = connectPromise c"
  "versionId (snd (run command c)) = versionId c"
  "versionCmd (snd (run command c)) = versionCmd c"
  "next_id (snd (run command c)) = Suc (next_id c)"
  "fst (run command c) = next_id c"
  by (simp_all add: run_def Let_def)

lemma run_sendTasks:
  "sendTasks (snd (run command c)) =
     (if \<not> broken c \<and> sock c \<and> commandQ c = [] then Suc (sendTasks c) else sendTasks c)"
  by (simp add: run_def Let_def)

lemma run_commandQ:
  "commandQ (snd (run command c)) =
     (if \<not> broken c \<and> sock c then commandQ c @ [\<lparr>qid = next_id c, cmd = command\<rparr>]
      else commandQ c)"
  by (simp add: run_def Let_def)









section \<open>Broken connections\<close>

lemma exec_broken:
  assumes "broken c" and "exec dl pb es c = Some (Inr c')"
  shows "broken c'"
proof (rule exec_preserves [where I = broken, OF _ assms])
  fix e and s s' :: conn
  assume b: "broken s" and st: "step dl pb e s = Some (Inr s')"
  show "broken s'"
  proof (rule step_preserves [where I = broken, OF _ _ _ _ _ _ _ _ _ _ _ _ _ _ b st])
    fix c :: conn and command assume "broken c"
    then show "broken (snd (run command c))" by (simp add: run_def Let_def)
  next
    fix c :: conn assume "broken c"
    then show "broken (close c)" by (simp add: close_shape)
  next
    fix c c' :: conn
    assume "broken c" and "sendCommand False (c\<lparr>sendTasks := sendTasks c - 1\<rparr>) = Inr c'"
    then show "broken c'" using sendCommand_nopop_shape [of "c\<lparr>sendTasks := sendTasks c - 1\<rparr>" c']
      by auto
  next
    fix c c' :: conn and qc q t
    assume "broken c" and "sendCommand True (settle (qid qc) t c) = Inr c'"
    then show "broken c'" using sendCommand_pop_shape [of "settle (qid qc) t c" c'] by auto
  qed auto
qed

text \<open>
  Claim C9. Once the connection is broken it stays broken through every further event, and
  every later \<^verbatim>\<open>run\<close> fails its future at once with "The connection was broken" and
  queues nothing.
\<close>

theorem broken_is_permanent:
  assumes "broken c" and "exec dl pb es c = Some (Inr c')"
  shows "broken c' \<and>
         (\<forall>command. run command c' =
            (next_id c', c'\<lparr>next_id := Suc (next_id c'),
               settled := settled c' @
                 [(next_id c', Inl (WatchmanError ''The connection was broken''))]\<rparr>))"
  using exec_broken [OF assms] by (simp add: run_broken)

theorem broken_is_permanent_witness:
  "broken (readEOF two_pending) \<and>
   exec sample_decodePduLength sample_parseBser
     [Run (DString ''clock''), ReadData [0, 1, 0], SendTask] (readEOF two_pending) =
     Some (Inr (two_pending\<lparr>broken := True, commandQ := [], next_id := 3, sendTasks := 0,
          settled := [(0, Inl (SystemError ENOTCONN ''connection closed'')),
             (1, Inl (SystemError ENOTCONN ''connection closed'')),
             (2, Inl (WatchmanError ''The connection was broken''))],
          notified := [Inl (SystemError ENOTCONN ''connection closed''), Inr (sample_value 0)]\<rparr>)) \<and>
   broken (two_pending\<lparr>broken := True, commandQ := [], next_id := 3, sendTasks := 0,
          settled := [(0, Inl (SystemError ENOTCONN ''connection closed'')),
             (1, Inl (SystemError ENOTCONN ''connection closed'')),
             (2, Inl (WatchmanError ''The connection was broken''))],
          notified := [Inl (SystemError ENOTCONN ''connection closed''), Inr (sample_value 0)]\<rparr>)"
proof -
  have b: "broken (readEOF two_pending)" by (simp add: readEOF_def)
  have e: "exec sample_decodePduLength sample_parseBser
     [Run (DString ''clock''), ReadData [0, 1, 0], SendTask] (readEOF two_pending) =
     Some (Inr (two_pending\<lparr>broken := True, commandQ := [], next_id := 3, sendTasks := 0,
          settled := [(0, Inl (SystemError ENOTCONN ''connection closed'')),
             (1, Inl (SystemError ENOTCONN ''connection closed'')),
             (2, Inl (WatchmanError ''The connection was broken''))],
          notified := [Inl (SystemError ENOTCONN ''connection closed''), Inr (sample_value 0)]\<rparr>))"
    by code_simp
  show ?thesis using b e broken_is_permanent [OF b e] by blast
qed

text \<open>
  Claim C10. After \<^verbatim>\<open>close\<close> on a connection that an execution has reached, the
  connection is broken and remains so; every later \<^verbatim>\<open>run\<close> fails at once with
  "The connection was broken", the very result that \<^verbatim>\<open>run\<close> gives after the stream
  has ended.
\<close>

theorem run_after_close_fails:
  assumes "exec dl pb es (init cb) = Some (Inr c)" and "exec dl pb es' (close c) = Some (Inr c')"
  shows "broken (close c) \<and> broken c' \<and>
         run command c' =
            (next_id c', c'\<lparr>next_id := Suc (next_id c'),
               settled := settled c' @
                 [(next_id c', Inl (WatchmanError ''The connection was broken''))]\<rparr>) \<and>
         run command (readEOF c) =
            (next_id c, (readEOF c)\<lparr>next_id := Suc (next_id c),
               settled := settled (readEOF c) @
                 [(next_id c, Inl (WatchmanError ''The connection was broken''))]\<rparr>)"
proof -
  have "inv_flags c" using reachable_inv [OF assms(1)] by simp
  then have b: "broken (close c)" by (simp add: close_shape inv_flags_def)
  have b': "broken c'" using exec_broken [OF b assms(2)] .
  have e: "broken (readEOF c)" "next_id (readEOF c) = next_id c" by (simp_all add: readEOF_def)
  show ?thesis using b b' run_broken [OF b', of command] run_broken [OF e(1), of command] e(2)
    by simp
qed

theorem run_after_close_fails_witness:
  "exec sample_decodePduLength sample_parseBser
     [Connect (DObject []), OpenSocket, Run (DString ''a''), Run (DString ''b'')] (init True) =
     Some (Inr two_pending) \<and>
   exec sample_decodePduLength sample_parseBser [SendTask, Close] (close two_pending) =
     Some (Inr ((close two_pending)\<lparr>sendTasks := 0\<rparr>)) \<and>
   settled (snd (run (DString ''clock'') ((close two_pending)\<lparr>sendTasks := 0\<rparr>))) =
     [(0, Inl close_error), (1, Inl close_error),
      (2, Inl (WatchmanError ''The connection was broken''))]"
proof -
  have e: "exec sample_decodePduLength sample_parseBser
     [Connect (DObject []), OpenSocket, Run (DString ''a''), Run (DString ''b'')] (init True) =
     Some (Inr two_pending)"
    by code_simp
  have e': "exec sample_decodePduLength sample_parseBser [SendTask, Close] (close two_pending) =
     Some (Inr ((close two_pending)\<lparr>sendTasks := 0\<rparr>))"
    by code_simp
  have "settled ((close two_pending)\<lparr>sendTasks := 0\<rparr>) = [(0, Inl close_error), (1, Inl close_error)]"
    "next_id ((close two_pending)\<lparr>sendTasks := 0\<rparr>) = 2"
    by code_simp+
  then show ?thesis using e e' run_after_close_fails [OF e e', of "DString ''clock''"] by simp
qed

section \<open>Framing\<close>

lemma fold_postallocate:
  "fold postallocate chunks c = c\<lparr>bufQ := bufQ c @ concat chunks\<rparr>"
  by (induction chunks arbitrary: c) (simp_all add: postallocate_def)

text \<open>
  Claim C2. \<^verbatim>\<open>splitNextPdu\<close> answers "not ready" and leaves the connection as it is when
  the buffer is empty, when the header decoder runs out of bytes, or when the decoded length
  exceeds the bytes in the buffer. When the header gives a length that the buffer covers, it
  removes exactly that many bytes from the front and returns them as the PDU. (Any other
  exception of the header decoder leaves the function.) The buffer after a series of reads
  is the old buffer followed by all the bytes read, so the answer is the same for any two
  ways of cutting the same bytes into reads.
\<close>

theorem splitNextPdu_framing:
  "(bufQ c = [] \<or> decodePduLength (bufQ c) = Inl OutOfRange \<or>
      (\<exists>n. decodePduLength (bufQ c) = Inr n \<and> length (bufQ c) < n)
      \<longrightarrow> splitNextPdu decodePduLength c = Inr (None, c)) \<and>
   (\<forall>n. bufQ c \<noteq> [] \<and> decodePduLength (bufQ c) = Inr n \<and> n \<le> length (bufQ c)
      \<longrightarrow> splitNextPdu decodePduLength c =
            Inr (Some (take n (bufQ c)), c\<lparr>bufQ := drop n (bufQ c)\<rparr>)) \<and>
   (\<forall>e. bufQ c \<noteq> [] \<and> decodePduLength (bufQ c) = Inl e \<and> e \<noteq> OutOfRange
      \<longrightarrow> splitNextPdu decodePduLength c = Inl e) \<and>
   bufQ (fold postallocate chunks c) = bufQ c @ concat chunks \<and>
   (concat chunks = concat chunks' \<longrightarrow>
      splitNextPdu decodePduLength (fold postallocate chunks c) =
      splitNextPdu decodePduLength (fold postallocate chunks' c))"
  by (auto simp: splitNextPdu_def fold_postallocate split: exn.splits)

theorem splitNextPdu_framing_witness:
  "splitNextPdu sample_decodePduLength (connected\<lparr>bufQ := [0]\<rparr>) =
     Inr (None, connected\<lparr>bufQ := [0]\<rparr>) \<and>
   splitNextPdu sample_decodePduLength (connected\<lparr>bufQ := [0, 2, 9]\<rparr>) =
     Inr (None, connected\<lparr>bufQ := [0, 2, 9]\<rparr>) \<and>
   splitNextPdu sample_decodePduLength (connected\<lparr>bufQ := [0, 1, 5, 0, 1]\<rparr>) =
     Inr (Some [0, 1, 5], connected\<lparr>bufQ := [0, 1]\<rparr>) \<and>
   splitNextPdu sample_decodePduLength (connected\<lparr>bufQ := [7, 1, 5]\<rparr>) =
     Inl (RuntimeError ''invalid magic header'') \<and>
   splitNextPdu sample_decodePduLength (fold postallocate [[0], [1, 5, 0], [1]] connected) =
   splitNextPdu sample_decodePduLength (fold postallocate [[0, 1, 5, 0, 1]] connected)"
proof -
  have a: "sample_decodePduLength [0] = Inl OutOfRange"
    "sample_decodePduLength [0, 2, 9] = Inr 4"
    "sample_decodePduLength [0, 1, 5, 0, 1] = Inr 3"
    "sample_decodePduLength [7, 1, 5] = Inl (RuntimeError ''invalid magic header'')"
    by (simp_all add: sample_decodePduLength_def)
  show ?thesis
    using a splitNextPdu_framing [of "connected\<lparr>bufQ := [0]\<rparr>" sample_decodePduLength]
      splitNextPdu_framing [of "connected\<lparr>bufQ := [0, 2, 9]\<rparr>" sample_decodePduLength]
      splitNextPdu_framing [of "connected\<lparr>bufQ := [0, 1, 5, 0, 1]\<rparr>" sample_decodePduLength]
      splitNextPdu_framing [of "connected\<lparr>bufQ := [7, 1, 5]\<rparr>" sample_decodePduLength]
      splitNextPdu_framing [of connected sample_decodePduLength "[[0], [1, 5, 0], [1]]"
        "[[0, 1, 5, 0, 1]]"]
    by simp
qed

section \<open>One turn of the decode loop\<close>

lemma decodeLoop_split:
  assumes "bufQ c \<noteq> []" and "dl (bufQ c) = Inr n" and "n \<le> length (bufQ c)"
  shows "decodeLoop dl pb c =
     (case dispatchPdu pb (take n (bufQ c)) (c\<lparr>bufQ := drop n (bufQ c)\<rparr>) of
        Continue c'' \<Rightarrow> decodeLoop dl pb c''
      | Stop c'' \<Rightarrow> Some (Inr c'')
      | Abort f \<Rightarrow> Some (Inl f))"
  using assms by (subst decodeLoop.simps) (simp add: splitNextPdu_def)

lemma decodeLoop_not_ready:
  assumes "bufQ c = [] \<or> dl (bufQ c) = Inl OutOfRange \<or> (\<exists>n. dl (bufQ c) = Inr n \<and> length (bufQ c) < n)"
  shows "decodeLoop dl pb c = Some (Inr c)"
  using assms by (subst decodeLoop.simps) (auto simp: splitNextPdu_def)

text \<open>
  Claim C8. The marker keys are "subscription", then "log". When the next complete PDU
  decodes to a map that holds one of them and a subscriber is registered, the value goes
  to the subscriber, as a failure when it holds an "error" key and as a success otherwise,
  and the loop goes on with the rest of the buffer. Without a subscriber the loop ends in
  \<^verbatim>\<open>failQueuedCommands\<close> with "No unilateral callback has been installed"; the bytes
  after this PDU stay in the buffer.
\<close>

theorem unilateral_classification:
  assumes "bufQ c \<noteq> []" and "dl (bufQ c) = Inr n" and "n \<le> length (bufQ c)"
    and "pb (take n (bufQ c)) = Inr (DObject kvs)"
    and "map_of kvs ''subscription'' \<noteq> None \<or> map_of kvs ''log'' \<noteq> None"
  shows "kUnilateralLabels = [''subscription'', ''log''] \<and>
    (callback c \<longrightarrow>
       decodeLoop dl pb c =
       decodeLoop dl pb (c\<lparr>bufQ := drop n (bufQ c),
         notified := notified c @
           [if map_of kvs ''error'' = None then Inr (DObject kvs)
            else Inl (WatchmanResponseError (DObject kvs))]\<rparr>)) \<and>
    (\<not> callback c \<longrightarrow>
       decodeLoop dl pb c =
       Some (Inr (failQueuedCommands (RuntimeError ''No unilateral callback has been installed'')
                   (c\<lparr>bufQ := drop n (bufQ c)\<rparr>))) \<and>
       bufQ (failQueuedCommands (RuntimeError ''No unilateral callback has been installed'')
                   (c\<lparr>bufQ := drop n (bufQ c)\<rparr>)) = drop n (bufQ c))"
proof -
  have l: "kUnilateralLabels = [''subscription'', ''log'']" by (simp add: kUnilateralLabels_def)
  have t: "watchmanResponseToTry (DObject kvs) =
      Inr (if map_of kvs ''error'' = None then Inr (DObject kvs)
           else Inl (WatchmanResponseError (DObject kvs)))"
    by (auto simp: watchmanResponseToTry_def kError_def)
  let ?c1 = "c\<lparr>bufQ := drop n (bufQ c)\<rparr>"
  have u: "checkUnilateral kUnilateralLabels (DObject kvs) ?c1 =
      (if callback c
       then Inr (Delivered (?c1\<lparr>notified := notified c @
           [if map_of kvs ''error'' = None then Inr (DObject kvs)
            else Inl (WatchmanResponseError (DObject kvs))]\<rparr>))
       else Inr (NoCallback
          (failQueuedCommands (RuntimeError ''No unilateral callback has been installed'') ?c1)))"
    using assms(5) by (cases "map_of kvs ''subscription''") (auto simp: t l)
  have yes: "dispatchPdu pb (take n (bufQ c)) ?c1 =
      Continue (?c1\<lparr>notified := notified c @
           [if map_of kvs ''error'' = None then Inr (DObject kvs)
            else Inl (WatchmanResponseError (DObject kvs))]\<rparr>)" if "callback c"
    using that assms(4) by (simp add: dispatchPdu_def decodeBody_def u)
  have no: "dispatchPdu pb (take n (bufQ c)) ?c1 =
      Stop (failQueuedCommands (RuntimeError ''No unilateral callback has been installed'') ?c1)"
    if "\<not> callback c"
    using that assms(4) by (simp add: dispatchPdu_def decodeBody_def u)
  show ?thesis
    using l yes no decodeLoop_split [of c dl n pb] assms(1-3) by simp
qed

theorem unilateral_classification_witness:
  "decodeLoop sample_decodePduLength sample_parseBser (connected\<lparr>bufQ := [0, 1, 0, 0, 1, 1]\<rparr>) =
   decodeLoop sample_decodePduLength sample_parseBser
     (connected\<lparr>bufQ := [0, 1, 1], notified := [Inr (sample_value 0)]\<rparr>) \<and>
   decodeLoop sample_decodePduLength sample_parseBser
     (connected\<lparr>callback := False, bufQ := [0, 1, 1, 0, 1, 0]\<rparr>) =
   Some (Inr (connected\<lparr>callback := False, bufQ := [0, 1, 0], broken := True\<rparr>))"
proof -
  have d: "sample_decodePduLength [0, 1, 0, 0, 1, 1] = Inr 3"
    "sample_decodePduLength [0, 1, 1, 0, 1, 0] = Inr 3"
    by (simp_all add: sample_decodePduLength_def)
  have p: "sample_parseBser [0, 1, 0] = Inr (DObject [(''subscription'', DString ''sub1''), (''files'', DArray [])])"
    "sample_parseBser [0, 1, 1] = Inr (DObject [(''log'', DString ''line'')])"
    by (simp_all add: sample_parseBser_def sample_value_def)
  have n: "notified connected = []" "callback connected" "commandQ connected = []"
    by (simp_all add: connected_def init_def)
  have f: "failQueuedCommands (RuntimeError ''No unilateral callback has been installed'')
      (connected\<lparr>callback := False, bufQ := [0, 1, 0]\<rparr>) =
      connected\<lparr>callback := False, bufQ := [0, 1, 0], broken := True\<rparr>"
    by (simp add: failQueuedCommands_def Let_def n connected_def init_def)
  show ?thesis
    using unilateral_classification [of "connected\<lparr>bufQ := [0, 1, 0, 0, 1, 1]\<rparr>"
        sample_decodePduLength 3 sample_parseBser
        "[(''subscription'', DString ''sub1''), (''files'', DArray [])]"]
      unilateral_classification [of "connected\<lparr>callback := False, bufQ := [0, 1, 1, 0, 1, 0]\<rparr>"
        sample_decodePduLength 3 sample_parseBser "[(''log'', DString ''line'')]"]
    by (simp add: d p n f sample_value_def)
qed

section \<open>The handshake\<close>

lemma settle_resolved:
  "connectPromise c = Some t0 \<Longrightarrow> connectPromise (settle i t c) = Some t0"
  by (simp add: settle_def Let_def versionContinuation_resolved)

lemma failPromises_resolved:
  "connectPromise c = Some t0 \<Longrightarrow> connectPromise (failPromises ex q c) = Some t0"
  by (induction q arbitrary: c) (simp_all add: settle_resolved)

lemma failQueuedCommands_resolved:
  "connectPromise c = Some t0 \<Longrightarrow> connectPromise (failQueuedCommands ex c) = Some t0"
  by (simp add: failQueuedCommands_def Let_def failPromises_resolved)

lemma exec_resolved:
  assumes "connectPromise c = Some t0" and "exec dl pb es c = Some (Inr c')"
  shows "connectPromise c' = Some t0"
proof (rule exec_preserves [where I = "\<lambda>s. connectPromise s = Some t0", OF _ assms])
  fix e and s s' :: conn
  assume b: "connectPromise s = Some t0" and st: "step dl pb e s = Some (Inr s')"
  show "connectPromise s' = Some t0"
  proof (rule step_preserves [where I = "\<lambda>s. connectPromise s = Some t0", OF _ _ _ _ _ _ _ _ _ _ _ _ _ _ b st])
    fix c :: conn and ex assume "connectPromise c = Some t0"
    then show "connectPromise (failQueuedCommands ex c) = Some t0"
      by (rule failQueuedCommands_resolved)
  next
    fix c :: conn assume "connectPromise c = Some t0"
    then show "connectPromise (close c) = Some t0"
      by (simp add: close_shape socketClose_def readEOF_def failQueuedCommands_resolved)
  next
    fix c c' :: conn
    assume "connectPromise c = Some t0" and "sendCommand False (c\<lparr>sendTasks := sendTasks c - 1\<rparr>) = Inr c'"
    then show "connectPromise c' = Some t0"
      using sendCommand_nopop_shape [of "c\<lparr>sendTasks := sendTasks c - 1\<rparr>" c'] by auto
  next
    fix c c' :: conn and qc q t
    assume "connectPromise c = Some t0" and "sendCommand True (settle (qid qc) t c) = Inr c'"
    then show "connectPromise c' = Some t0"
      using sendCommand_pop_shape [of "settle (qid qc) t c" c'] settle_resolved [of c t0 "qid qc" t]
      by auto
  qed auto
qed

lemma versionContinuation_value:
  assumes "connectPromise c = None"
  shows "versionContinuation (Inr (DObject kvs)) c = c\<lparr>connectPromise := Some (handshake_result kvs)\<rparr>"
proof (cases "map_of kvs ''capabilities''")
  case None
  have "map_of (AList.update ''error'' (DString upgrade_message) kvs) ''error'' =
      Some (DString upgrade_message)"
    by (simp add: update_conv')
  then show ?thesis using None assms
    by (simp add: versionContinuation_def versionThen_def kCapabilities_def
        watchmanResponseToTry_def kError_def connectPromise_set_def handshake_result_def)
next
  case (Some caps)
  then show ?thesis using assms
    by (simp add: versionContinuation_def versionThen_def kCapabilities_def
        connectPromise_set_def handshake_result_def)
qed

text \<open>
  Claim C3. Take a connection whose transport has just connected: socket set, not broken,
  queue and buffer empty, connect promise open. After \<^verbatim>\<open>connectSuccess\<close> and the posted
  send, the read callback is installed, the version command is queued and written, and the
  connect promise is still open.
  When the response arrives, a map with neither a marker key nor an "error" key, the connect
  promise is set: to the response itself when it holds "capabilities", and otherwise to the
  failure that carries the response with the upgrade message under "error". No later event
  changes the connect promise.
\<close>

theorem handshake_capabilities:
  assumes c: "inv_ids c" "sock c" "\<not> broken c" "\<not> decoding c" "commandQ c = []" "bufQ c = []"
      "connectPromise c = None"
    and frame: "pdu \<noteq> []" "dl pdu = Inr (length pdu)"
    and parse: "pb pdu = Inr (DObject kvs)"
    and resp: "map_of kvs ''subscription'' = None" "map_of kvs ''log'' = None"
      "map_of kvs ''error'' = None"
  shows "exec dl pb [ConnectSuccess, SendTask] c =
           Some (Inr (c\<lparr>readCB := True, next_id := Suc (next_id c), versionId := Some (next_id c),
               commandQ := [\<lparr>qid = next_id c, cmd = versionCmd c\<rparr>],
               written := written c @ [versionCmd c]\<rparr>)) \<and>
         exec dl pb [ConnectSuccess, SendTask, ReadData pdu] c =
           Some (Inr (c\<lparr>readCB := True, next_id := Suc (next_id c), versionId := Some (next_id c),
               written := written c @ [versionCmd c],
               settled := settled c @ [(next_id c, Inr (DObject kvs))],
               popped := Suc (popped c),
               connectPromise := Some
                 (if map_of kvs ''capabilities'' = None
                  then Inl (WatchmanResponseError
                         (DObject (AList.update ''error'' (DString upgrade_message) kvs)))
                  else Inr (DObject kvs))\<rparr>)) \<and>
         (\<forall>es c' c''. exec dl pb [ConnectSuccess, SendTask, ReadData pdu] c = Some (Inr c') \<and>
              exec dl pb es c' = Some (Inr c'') \<longrightarrow> connectPromise c'' = connectPromise c')"
proof -
  let ?i = "next_id c"
  let ?c1 = "c\<lparr>readCB := True, next_id := Suc ?i, commandQ := [\<lparr>qid = ?i, cmd = versionCmd c\<rparr>],
       sendTasks := Suc (sendTasks c), versionId := Some ?i\<rparr>"
  let ?c2 = "c\<lparr>readCB := True, next_id := Suc ?i, versionId := Some ?i,
       commandQ := [\<lparr>qid = ?i, cmd = versionCmd c\<rparr>], written := written c @ [versionCmd c]\<rparr>"
  let ?c3 = "c\<lparr>readCB := True, next_id := Suc ?i, versionId := Some ?i,
               written := written c @ [versionCmd c],
               settled := settled c @ [(?i, Inr (DObject kvs))],
               popped := Suc (popped c),
               connectPromise := Some (handshake_result kvs)\<rparr>"
  have fresh: "map_of (settled c) ?i = None"
    using c(1) by (force simp: inv_ids_def map_of_eq_None_iff)
  have s1: "connectSuccess c = Inr ?c1"
    using c fresh by (simp add: connectSuccess_def run_def Let_def)
  have s2: "step dl pb SendTask ?c1 = Some (Inr ?c2)"
    using c by (simp add: sendCommand_def Let_def)
  have e2: "exec dl pb [ConnectSuccess, SendTask] c = Some (Inr ?c2)"
    using s1 s2 by simp
  let ?d = "?c2\<lparr>bufQ := [], decoding := True\<rparr>"
  have w: "watchmanResponseToTry (DObject kvs) = Inr (Inr (DObject kvs))"
    using resp(3) by (simp add: watchmanResponseToTry_def kError_def)
  have u: "checkUnilateral kUnilateralLabels (DObject kvs) ?d = Inr NotUnilateral"
    using resp by (simp add: kUnilateralLabels_def)
  have st: "settle ?i (Inr (DObject kvs)) ?d =
      ?d\<lparr>settled := settled c @ [(?i, Inr (DObject kvs))],
         connectPromise := Some (handshake_result kvs)\<rparr>"
    using c(7) by (simp add: settle_def Let_def versionContinuation_value)
  have disp: "dispatchPdu pb pdu ?d =
      Continue (?d\<lparr>settled := settled c @ [(?i, Inr (DObject kvs))],
         connectPromise := Some (handshake_result kvs), commandQ := [],
         popped := Suc (popped c)\<rparr>)"
    using parse fresh
    by (simp add: dispatchPdu_def decodeBody_def u w promise_setTry_def isFulfilled_def st
        popAndSendCommand_def sendCommand_def Let_def)
  let ?b = "?c2\<lparr>bufQ := pdu, decoding := True\<rparr>"
  let ?e = "?d\<lparr>settled := settled c @ [(?i, Inr (DObject kvs))],
         connectPromise := Some (handshake_result kvs), commandQ := [],
         popped := Suc (popped c)\<rparr>"
  have l1: "decodeLoop dl pb ?b =
      (case dispatchPdu pb (take (length pdu) (bufQ ?b)) (?b\<lparr>bufQ := drop (length pdu) (bufQ ?b)\<rparr>) of
         Continue c'' \<Rightarrow> decodeLoop dl pb c''
       | Stop c'' \<Rightarrow> Some (Inr c'')
       | Abort f \<Rightarrow> Some (Inl f))"
    by (rule decodeLoop_split) (simp_all add: frame)
  have l2: "take (length pdu) (bufQ ?b) = pdu" by simp
  have l3: "?b\<lparr>bufQ := drop (length pdu) (bufQ ?b)\<rparr> = ?d" by simp
  have l4: "decodeLoop dl pb ?e = Some (Inr ?e)"
    by (rule decodeLoop_not_ready) simp
  have loop: "decodeLoop dl pb ?b = Some (Inr ?e)"
    by (simp only: l1 l2 l3 disp loop_ctl.case l4)
  have s3: "step dl pb (ReadData pdu) ?c2 = Some (Inr ?c3)"
    using c loop by (simp add: readDataAvailable_def decodeNextResponse_def postallocate_def)
  have e3: "exec dl pb [ConnectSuccess, SendTask, ReadData pdu] c = Some (Inr ?c3)"
    using s1 s2 s3 by simp
  have perm: "connectPromise c'' = connectPromise c'"
    if "exec dl pb [ConnectSuccess, SendTask, ReadData pdu] c = Some (Inr c')"
      and "exec dl pb es c' = Some (Inr c'')" for es c' c''
  proof -
    have "connectPromise c' = Some (handshake_result kvs)" using that(1) e3 by simp
    then show ?thesis using exec_resolved [OF _ that(2)] by simp
  qed
  show ?thesis using e2 e3 perm unfolding handshake_result_def by blast
qed

theorem handshake_capabilities_witness:
  "map_option (map_sum id connectPromise)
     (exec sample_decodePduLength sample_parseBser [ConnectSuccess, SendTask, ReadData [0, 1, 3]]
        connected) =
   Some (Inr (Some (Inl (WatchmanResponseError
     (DObject [(''version'', DString ''3.0.0''), (''error'', DString upgrade_message)]))))) \<and>
   map_option (map_sum id connectPromise)
     (exec sample_decodePduLength sample_parseBser [ConnectSuccess, SendTask, ReadData [0, 1, 2]]
        connected) =
   Some (Inr (Some (Inr (DObject [(''version'', DString ''4.9.0''), (''capabilities'', DObject [])]))))"
proof -
  have c: "inv_ids connected" "sock connected" "\<not> broken connected" "\<not> decoding connected"
    "commandQ connected = []" "bufQ connected = []" "connectPromise connected = None"
    by (simp_all add: connected_def init_def inv_ids_def)
  have ne: "[0 :: 8 word, 1, 3] \<noteq> []" "[0 :: 8 word, 1, 2] \<noteq> []" by simp_all
  have f: "sample_decodePduLength [0, 1, 3] = Inr (length [0 :: 8 word, 1, 3])"
    "sample_decodePduLength [0, 1, 2] = Inr (length [0 :: 8 word, 1, 2])"
    by (simp_all add: sample_decodePduLength_def)
  have p: "sample_parseBser [0, 1, 3] = Inr (DObject [(''version'', DString ''3.0.0'')])"
    "sample_parseBser [0, 1, 2] =
       Inr (DObject [(''version'', DString ''4.9.0''), (''capabilities'', DObject [])])"
    by (simp_all add: sample_parseBser_def sample_value_def)
  have m: "map_of [(''version'', DString ''3.0.0'')] ''subscription'' = None"
    "map_of [(''version'', DString ''3.0.0'')] ''log'' = None"
    "map_of [(''version'', DString ''3.0.0'')] ''error'' = None"
    by simp_all
  have m': "map_of [(''version'', DString ''4.9.0''), (''capabilities'', DObject [])] ''subscription'' = None"
    "map_of [(''version'', DString ''4.9.0''), (''capabilities'', DObject [])] ''log'' = None"
    "map_of [(''version'', DString ''4.9.0''), (''capabilities'', DObject [])] ''error'' = None"
    by simp_all
  note a = handshake_capabilities [of connected "[0, 1, 3]" sample_decodePduLength
      sample_parseBser "[(''version'', DString ''3.0.0'')]",
      OF c ne(1) f(1) p(1) m, THEN conjunct2, THEN conjunct1]
  note b = handshake_capabilities [of connected "[0, 1, 2]" sample_decodePduLength
      sample_parseBser "[(''version'', DString ''4.9.0''), (''capabilities'', DObject [])]",
      OF c ne(2) f(2) p(2) m', THEN conjunct2, THEN conjunct1]
  show ?thesis by (simp only: a b) simp
qed

section \<open>Dispatching a stream of responses\<close>

lemma versionContinuation_bufQ:
  "versionContinuation t (c\<lparr>bufQ := b\<rparr>) = (versionContinuation t c)\<lparr>bufQ := b\<rparr>"
  by (auto simp: versionContinuation_def versionOnError_def versionThen_def connectPromise_set_def
      split: sum.splits option.splits)

lemma versionContinuation_decoding:
  "versionContinuation t (c\<lparr>decoding := b\<rparr>) = (versionContinuation t c)\<lparr>decoding := b\<rparr>"
  by (auto simp: versionContinuation_def versionOnError_def versionThen_def connectPromise_set_def
      split: sum.splits option.splits)

lemma settle_bufQ: "settle i t (c\<lparr>bufQ := b\<rparr>) = (settle i t c)\<lparr>bufQ := b\<rparr>"
  by (auto simp: settle_def Let_def versionContinuation_def versionOnError_def versionThen_def
      connectPromise_set_def split: sum.splits option.splits)

lemma settle_decoding: "settle i t (c\<lparr>decoding := b\<rparr>) = (settle i t c)\<lparr>decoding := b\<rparr>"
  by (auto simp: settle_def Let_def versionContinuation_def versionOnError_def versionThen_def
      connectPromise_set_def split: sum.splits option.splits)

lemma respond1_bufQ: "respond1 t (c\<lparr>bufQ := b\<rparr>) = (respond1 t c)\<lparr>bufQ := b\<rparr>"
  by (simp add: respond1_def settle_bufQ)

lemma respond1_decoding: "respond1 t (c\<lparr>decoding := b\<rparr>) = (respond1 t c)\<lparr>decoding := b\<rparr>"
  by (simp add: respond1_def settle_decoding)

lemma respond_bufQ: "respond ts (c\<lparr>bufQ := b\<rparr>) = (respond ts c)\<lparr>bufQ := b\<rparr>"
  by (induction ts arbitrary: c) (simp_all add: respond1_bufQ)

lemma respond_decoding: "respond ts (c\<lparr>decoding := b\<rparr>) = (respond ts c)\<lparr>decoding := b\<rparr>"
  by (induction ts arbitrary: c) (simp_all add: respond1_decoding)

lemma respond_append: "respond (ts @ us) c = respond us (respond ts c)"
  by (induction ts arbitrary: c) simp_all

lemma respond1_fields [simp]:
  "sock (respond1 t c) = sock c"
  "readCB (respond1 t c) = readCB c"
  "callback (respond1 t c) = callback c"
  "broken (respond1 t c) = broken c"
  "closing (respond1 t c) = closing c"
  "decoding (respond1 t c) = decoding c"
  "bufQ (respond1 t c) = bufQ c"
  "next_id (respond1 t c) = next_id c"
  "sendTasks (respond1 t c) = sendTasks c"
  "notified (respond1 t c) = notified c"
  "commandQ (respond1 t c) = tl (commandQ c)"
  "popped (respond1 t c) = Suc (popped c)"
  "settled (respond1 t c) = settled c @ [(qid (hd (commandQ c)), t)]"
  "written (respond1 t c) = written c @ map cmd (take 1 (tl (commandQ c)))"
  by (simp_all add: respond1_def)

lemma respond_fields [simp]:
  "sock (respond ts c) = sock c"
  "readCB (respond ts c) = readCB c"
  "callback (respond ts c) = callback c"
  "broken (respond ts c) = broken c"
  "closing (respond ts c) = closing c"
  "decoding (respond ts c) = decoding c"
  "bufQ (respond ts c) = bufQ c"
  "next_id (respond ts c) = next_id c"
  "sendTasks (respond ts c) = sendTasks c"
  "notified (respond ts c) = notified c"
  "popped (respond ts c) = popped c + length ts"
  by (induction ts arbitrary: c; simp)+

lemma respond_commandQ: "commandQ (respond ts c) = drop (length ts) (commandQ c)"
  by (induction ts arbitrary: c) (simp_all add: drop_Suc)

lemma respond_settled:
  "length ts \<le> length (commandQ c) \<Longrightarrow>
   settled (respond ts c) = settled c @ zip (map qid (commandQ c)) ts"
proof (induction ts arbitrary: c)
  case Nil
  then show ?case by simp
next
  case (Cons t ts)
  then obtain qc q where q: "commandQ c = qc # q" by (cases "commandQ c") auto
  then have "length ts \<le> length (commandQ (respond1 t c))" using Cons.prems by simp
  then show ?case using Cons.IH [of "respond1 t c"] q by simp
qed

lemma respond_written:
  "written (respond ts c) = written c @ map cmd (take (length ts) (tl (commandQ c)))"
proof (induction ts arbitrary: c)
  case Nil
  then show ?case by simp
next
  case (Cons t ts)
  show ?case
  proof (cases "tl (commandQ c)")
    case Nil
    then show ?thesis using Cons.IH [of "respond1 t c"] by simp
  next
    case (Cons x xs)
    then show ?thesis using Cons.IH [of "respond1 t c"] by simp
  qed
qed

lemma command_response_object:
  "command_response r \<Longrightarrow> \<exists>kvs. r = DObject kvs"
  by (cases r) (auto simp: command_response_def kUnilateralLabels_def)

lemma command_response_try:
  "command_response r \<Longrightarrow> \<exists>t. watchmanResponseToTry r = Inr t"
  by (auto dest!: command_response_object simp: watchmanResponseToTry_def split: option.splits)

lemma dispatch_response:
  assumes p: "pb p = Inr r" and r: "command_response r" and t: "watchmanResponseToTry r = Inr t"
    and q: "commandQ c \<noteq> []" and f: "\<not> isFulfilled c (qid (hd (commandQ c)))"
    and s: "sock c"
  shows "dispatchPdu pb p c = Continue (respond1 t c)"
proof -
  obtain qc q where qc: "commandQ c = qc # q" using q by (cases "commandQ c") auto
  have u: "checkUnilateral kUnilateralLabels r c = Inr NotUnilateral"
    using r by (simp add: checkUnilateral_NotUnilateral command_response_def)
  have pr: "promise_setTry (qid qc) t c = Inr (settle (qid qc) t c)"
    using f qc by (simp add: promise_setTry_def)
  have sc: "sendCommand True (settle (qid qc) t c) = Inr (respond1 t c)"
    using qc s by (cases q) (simp_all add: sendCommand_def Let_def respond1_def)
  show ?thesis
    by (simp add: dispatchPdu_def decodeBody_def p u qc t pr popAndSendCommand_def sc)
qed

lemma not_ready_loop:
  "not_ready dl (bufQ c) \<Longrightarrow> decodeLoop dl pb c = Some (Inr c)"
  by (rule decodeLoop_not_ready) (auto simp: not_ready_def split: sum.splits)

lemma decodeLoop_responses:
  assumes "list_all (frames dl) ps"
    and "list_all2 (\<lambda>p r. pb p = Inr r \<and> command_response r) ps rs"
    and "map watchmanResponseToTry rs = map Inr ts"
    and "not_ready dl tail"
    and "bufQ c = concat ps @ tail"
    and "length ps \<le> length (commandQ c)"
    and "distinct (map qid (commandQ c))"
    and "\<forall>x\<in>set (commandQ c). \<not> isFulfilled c (qid x)"
    and "sock c"
  shows "decodeLoop dl pb c = Some (Inr (respond ts (c\<lparr>bufQ := tail\<rparr>)))"
  using assms
proof (induction ps arbitrary: rs ts c)
  case Nil
  then have "ts = []" by simp
  moreover have "c\<lparr>bufQ := tail\<rparr> = c" using Nil.prems(5) by simp
  ultimately show ?case using not_ready_loop [of dl c pb] Nil.prems(4,5) by simp
next
  case (Cons p ps)
  obtain r rs' where rs: "rs = r # rs'" and pr: "pb p = Inr r" and cr: "command_response r"
    and rest2: "list_all2 (\<lambda>p r. pb p = Inr r \<and> command_response r) ps rs'"
    using Cons.prems(2) by (auto simp: list_all2_Cons1)
  obtain t ts' where ts: "ts = t # ts'" and wt: "watchmanResponseToTry r = Inr t"
    and rest3: "map watchmanResponseToTry rs' = map Inr ts'"
    using Cons.prems(3) rs by (cases ts) auto
  have fr: "frames dl p" and rest1: "list_all (frames dl) ps" using Cons.prems(1) by simp_all
  let ?rest = "concat ps @ tail"
  have buf: "bufQ c = p @ ?rest" using Cons.prems(5) by simp
  have pne: "p \<noteq> []" and len: "dl (bufQ c) = Inr (length p)"
    using fr buf by (simp_all add: frames_def)
  obtain qc q where q: "commandQ c = qc # q" using Cons.prems(6) by (cases "commandQ c") auto
  let ?c0 = "c\<lparr>bufQ := ?rest\<rparr>"
  have l1: "decodeLoop dl pb c =
      (case dispatchPdu pb (take (length p) (bufQ c)) (c\<lparr>bufQ := drop (length p) (bufQ c)\<rparr>) of
         Continue c'' \<Rightarrow> decodeLoop dl pb c''
       | Stop c'' \<Rightarrow> Some (Inr c'')
       | Abort f \<Rightarrow> Some (Inl f))"
    by (rule decodeLoop_split) (use pne buf len in simp_all)
  have l2: "take (length p) (bufQ c) = p" "drop (length p) (bufQ c) = ?rest" using buf by simp_all
  have d: "dispatchPdu pb p ?c0 = Continue (respond1 t ?c0)"
    by (rule dispatch_response [of pb p r t ?c0, OF pr cr wt])
       (use q Cons.prems(8,9) in \<open>simp_all add: isFulfilled_def\<close>)
  let ?c1 = "respond1 t ?c0"
  have step: "decodeLoop dl pb c = decodeLoop dl pb ?c1"
    by (simp only: l1 l2 d loop_ctl.case)
  have nq: "qid x \<noteq> qid qc" if "x \<in> set q" for x
    using that Cons.prems(7) q by (metis distinct.simps(2) imageI list.simps(9) set_map)
  have i5: "bufQ ?c1 = concat ps @ tail" by simp
  have i6: "length ps \<le> length (commandQ ?c1)" using Cons.prems(6) q by simp
  have i7: "distinct (map qid (commandQ ?c1))" using Cons.prems(7) q by simp
  have i8: "\<forall>x\<in>set (commandQ ?c1). \<not> isFulfilled ?c1 (qid x)"
    using Cons.prems(8) q nq by (auto simp: isFulfilled_def)
  have i9: "sock ?c1" using Cons.prems(9) by simp
  have "decodeLoop dl pb ?c1 = Some (Inr (respond ts' (?c1\<lparr>bufQ := tail\<rparr>)))"
    by (rule Cons.IH [OF rest1 rest2 rest3 Cons.prems(4) i5 i6 i7 i8 i9])
  moreover have "?c1\<lparr>bufQ := tail\<rparr> = respond1 t (c\<lparr>bufQ := tail\<rparr>)"
    by (simp add: respond1_bufQ)
  ultimately show ?case using step ts by simp
qed

section \<open>Reads that cut the stream anywhere\<close>

lemma prefix_concat_decomp:
  assumes "\<forall>p\<in>set ps. p \<noteq> []" and "pre @ suf = concat ps"
  shows "\<exists>j tl'. j \<le> length ps \<and> pre = concat (take j ps) @ tl' \<and>
           (if j = length ps then tl' = [] else \<exists>k<length (ps ! j). tl' = take k (ps ! j))"
  using assms
proof (induction ps arbitrary: pre)
  case Nil
  then show ?case by simp
next
  case (Cons p ps)
  show ?case
  proof (cases "length pre < length p")
    case True
    have "take (length pre) (pre @ suf) = take (length pre) (p @ concat ps)"
      using Cons.prems(2) by simp
    then have "pre = take (length pre) p" using True by simp
    then show ?thesis using True by (intro exI [of _ 0] exI [of _ pre]) auto
  next
    case False
    then have "pre = p @ drop (length p) pre \<and> drop (length p) pre @ suf = concat ps"
      using Cons.prems(2) by (metis append_eq_append_conv_if append_eq_conv_conj concat.simps(2) not_le_imp_less)
    then obtain pre' where pre: "pre = p @ pre'" and rest: "pre' @ suf = concat ps" by blast
    obtain j tl' where j: "j \<le> length ps" "pre' = concat (take j ps) @ tl'"
      "if j = length ps then tl' = [] else \<exists>k<length (ps ! j). tl' = take k (ps ! j)"
      using Cons.IH [OF _ rest] Cons.prems(1) by auto
    show ?thesis
      using j pre by (intro exI [of _ "Suc j"] exI [of _ tl']) auto
  qed
qed

lemma isFulfilled_iff: "isFulfilled c i \<longleftrightarrow> i \<in> fst ` set (settled c)"
  by (simp add: isFulfilled_def map_of_eq_None_iff)

lemma frames_not_ready:
  "frames dl p \<Longrightarrow> k < length p \<Longrightarrow> not_ready dl (take k p)"
  by (simp add: frames_def)

lemma fst_zip_take: "fst ` set (zip xs ys) \<subseteq> set (take (length ys) xs)"
proof (induction xs arbitrary: ys)
  case Nil
  then show ?case by simp
next
  case (Cons x xs)
  then show ?case by (cases ys) auto
qed

lemma readData_step:
  assumes "\<not> decoding c"
    and "decodeLoop dl pb (c\<lparr>bufQ := bufQ c @ bs, decoding := True\<rparr>) = Some (Inr c')"
  shows "step dl pb (ReadData bs) c = Some (Inr (c'\<lparr>decoding := False\<rparr>))"
  using assms by (simp add: readDataAvailable_def decodeNextResponse_def postallocate_def)

lemma reads_responses:
  assumes "list_all (frames dl) ps"
    and "list_all2 (\<lambda>p r. pb p = Inr r \<and> command_response r) ps rs"
    and "map watchmanResponseToTry rs = map Inr ts"
    and "bufQ c = tail" and "\<not> decoding c"
    and "if ps = [] then tail = [] else \<exists>k<length (hd ps). tail = take k (hd ps)"
    and "tail @ concat chunks = concat ps"
    and "length ps \<le> length (commandQ c)"
    and "distinct (map qid (commandQ c))"
    and "\<forall>x\<in>set (commandQ c). \<not> isFulfilled c (qid x)"
    and "sock c"
  shows "exec dl pb (map ReadData chunks) c = Some (Inr (respond ts (c\<lparr>bufQ := []\<rparr>)))"
  using assms
proof (induction chunks arbitrary: c ps rs ts tail)
  case Nil
  have "ps = []"
  proof (rule ccontr)
    assume ne: "ps \<noteq> []"
    then obtain k where k: "k < length (hd ps)" "tail = take k (hd ps)" using Nil.prems(6) by auto
    have "length (hd ps) \<le> length (concat ps)" using ne by (cases ps) simp_all
    moreover have "length tail = k" using k by simp
    moreover have "length tail = length (concat ps)" using Nil.prems(7) by simp
    ultimately show False using k(1) by linarith
  qed
  then have "tail = []" "ts = []" using Nil.prems(2,3,6) by simp_all
  then have "c\<lparr>bufQ := []\<rparr> = c" using Nil.prems(4) by simp
  then show ?case using \<open>ts = []\<close> by simp
next
  case (Cons chunk chunks)
  have ne: "\<forall>p\<in>set ps. p \<noteq> []"
    using Cons.prems(1) by (auto simp: list_all_iff frames_def)
  have cat: "(tail @ chunk) @ concat chunks = concat ps" using Cons.prems(7) by simp
  obtain j tl' where j: "j \<le> length ps" and pre: "tail @ chunk = concat (take j ps) @ tl'"
    and tl: "if j = length ps then tl' = [] else \<exists>k<length (ps ! j). tl' = take k (ps ! j)"
    using prefix_concat_decomp [OF ne cat] by blast
  have lrs: "length rs = length ps" using Cons.prems(2) by (simp add: list_all2_lengthD)
  have lts: "length ts = length ps" using Cons.prems(3) lrs by (metis length_map)
  let ?ps1 = "take j ps" and ?ps2 = "drop j ps"
  let ?rs1 = "take j rs" and ?rs2 = "drop j rs"
  let ?ts1 = "take j ts" and ?ts2 = "drop j ts"
  have a1: "list_all (frames dl) ?ps1" "list_all (frames dl) ?ps2"
    using Cons.prems(1) by (auto simp: list_all_iff dest: in_set_takeD in_set_dropD)
  have a2: "list_all2 (\<lambda>p r. pb p = Inr r \<and> command_response r) ?ps1 ?rs1"
    "list_all2 (\<lambda>p r. pb p = Inr r \<and> command_response r) ?ps2 ?rs2"
    using Cons.prems(2) by (simp_all add: list_all2_takeI list_all2_dropI)
  have a3: "map watchmanResponseToTry ?rs1 = map Inr ?ts1"
    "map watchmanResponseToTry ?rs2 = map Inr ?ts2"
    using Cons.prems(3) by (simp_all only: take_map [symmetric] drop_map [symmetric])
  have a4: "not_ready dl tl'"
  proof (cases "j = length ps")
    case True
    then show ?thesis using tl by (simp add: not_ready_def)
  next
    case False
    then obtain k where k: "k < length (ps ! j)" "tl' = take k (ps ! j)" using tl by auto
    have "frames dl (ps ! j)" using Cons.prems(1) False j by (simp add: list_all_length)
    then show ?thesis using k frames_not_ready by simp
  qed
  let ?cin = "c\<lparr>bufQ := bufQ c @ chunk, decoding := True\<rparr>"
  have b5: "bufQ ?cin = concat ?ps1 @ tl'" using Cons.prems(4) pre by simp
  have b6: "length ?ps1 \<le> length (commandQ ?cin)" using Cons.prems(8) j by simp
  have b7: "distinct (map qid (commandQ ?cin))" using Cons.prems(9) by simp
  have b8: "\<forall>x\<in>set (commandQ ?cin). \<not> isFulfilled ?cin (qid x)"
    using Cons.prems(10) by (simp add: isFulfilled_def)
  have b9: "sock ?cin" using Cons.prems(11) by simp
  have loop: "decodeLoop dl pb ?cin = Some (Inr (respond ?ts1 (?cin\<lparr>bufQ := tl'\<rparr>)))"
    by (rule decodeLoop_responses [OF a1(1) a2(1) a3(1) a4 b5 b6 b7 b8 b9])
  let ?c1 = "respond ?ts1 (c\<lparr>bufQ := tl'\<rparr>)"
  have e: "(?cin\<lparr>bufQ := tl'\<rparr>) = (c\<lparr>bufQ := tl'\<rparr>)\<lparr>decoding := True\<rparr>" by simp
  have "respond ?ts1 (?cin\<lparr>bufQ := tl'\<rparr>) =
      (respond ?ts1 (c\<lparr>bufQ := tl'\<rparr>))\<lparr>decoding := True\<rparr>"
    by (simp only: e respond_decoding)
  then have "(respond ?ts1 (?cin\<lparr>bufQ := tl'\<rparr>))\<lparr>decoding := False\<rparr> =
      (respond ?ts1 (c\<lparr>bufQ := tl'\<rparr>))\<lparr>decoding := False\<rparr>"
    by simp
  moreover have "(respond ?ts1 (c\<lparr>bufQ := tl'\<rparr>))\<lparr>decoding := False\<rparr> = ?c1"
    using Cons.prems(5) respond_fields(5) [of ?ts1 "c\<lparr>bufQ := tl'\<rparr>"] by simp
  ultimately have st: "step dl pb (ReadData chunk) c = Some (Inr ?c1)"
    using readData_step [OF Cons.prems(5) loop] by simp
  have l1: "length ?ts1 = j" using lts j by simp
  have q1: "commandQ ?c1 = drop j (commandQ c)"
    using respond_commandQ [of ?ts1 "c\<lparr>bufQ := tl'\<rparr>"] by (simp only: l1) simp
  have s1: "settled ?c1 = settled c @ zip (map qid (commandQ c)) ?ts1"
    using respond_settled [of ?ts1 "c\<lparr>bufQ := tl'\<rparr>"] j Cons.prems(8) by (simp only: l1) simp
  have c4: "bufQ ?c1 = tl'" by simp
  have c5: "\<not> decoding ?c1" using Cons.prems(5) by simp
  have c6: "if ?ps2 = [] then tl' = [] else \<exists>k<length (hd ?ps2). tl' = take k (hd ?ps2)"
    using tl j by (auto simp: hd_drop_conv_nth)
  have "concat ?ps1 @ (tl' @ concat chunks) = concat ?ps1 @ concat ?ps2"
    using cat pre by (metis append_assoc append_take_drop_id concat_append)
  then have c7: "tl' @ concat chunks = concat ?ps2" by simp
  have c8: "length ?ps2 \<le> length (commandQ ?c1)" using Cons.prems(8) q1 by simp
  have c9: "distinct (map qid (commandQ ?c1))"
    using Cons.prems(9) q1 by (metis distinct_drop drop_map)
  have c10: "\<forall>x\<in>set (commandQ ?c1). \<not> isFulfilled ?c1 (qid x)"
  proof
    fix x assume x: "x \<in> set (commandQ ?c1)"
    then have xd: "x \<in> set (drop j (commandQ c))" using q1 by simp
    then have "x \<in> set (commandQ c)" by (rule in_set_dropD)
    then have old: "qid x \<notin> fst ` set (settled c)" using Cons.prems(10) by (simp add: isFulfilled_iff)
    have "fst ` set (zip (map qid (commandQ c)) ?ts1) \<subseteq> set (take j (map qid (commandQ c)))"
      using fst_zip_take [of "map qid (commandQ c)" ?ts1] by (simp only: l1)
    moreover have "qid x \<in> set (drop j (map qid (commandQ c)))"
      using xd by (simp add: drop_map)
    moreover have "set (take j (map qid (commandQ c))) \<inter> set (drop j (map qid (commandQ c))) = {}"
      using Cons.prems(9) by (metis append_take_drop_id distinct_append)
    ultimately have "qid x \<notin> fst ` set (zip (map qid (commandQ c)) ?ts1)" by blast
    then show "\<not> isFulfilled ?c1 (qid x)" using old by (simp add: isFulfilled_iff s1 image_Un)
  qed
  have c11: "sock ?c1" using Cons.prems(11) by simp
  have "exec dl pb (map ReadData chunks) ?c1 = Some (Inr (respond ?ts2 (?c1\<lparr>bufQ := []\<rparr>)))"
    by (rule Cons.IH [OF a1(2) a2(2) a3(2) c4 c5 c6 c7 c8 c9 c10 c11])
  moreover have "?c1\<lparr>bufQ := []\<rparr> = respond ?ts1 (c\<lparr>bufQ := []\<rparr>)"
    using respond_bufQ [of ?ts1 "[]" "c\<lparr>bufQ := tl'\<rparr>"] by simp
  moreover have "respond ?ts2 (respond ?ts1 (c\<lparr>bufQ := []\<rparr>)) = respond ts (c\<lparr>bufQ := []\<rparr>)"
    using respond_append [of ?ts1 ?ts2 "c\<lparr>bufQ := []\<rparr>"] by simp
  ultimately show ?case using st by simp
qed

lemma exec_append:
  "exec dl pb (es @ fs) c =
     (case exec dl pb es c of
        None \<Rightarrow> None
      | Some (Inl f) \<Rightarrow> Some (Inl f)
      | Some (Inr c') \<Rightarrow> exec dl pb fs c')"
  by (induction es arbitrary: c) (auto split: option.splits sum.splits)

lemma exec_runs:
  "exec dl pb (map Run cmds) c = Some (Inr (fold (\<lambda>x s. snd (run x s)) cmds c))"
  by (induction cmds arbitrary: c) simp_all

lemma runs_fields [simp]:
  "sock (fold (\<lambda>x s. snd (run x s)) cmds c) = sock c"
  "readCB (fold (\<lambda>x s. snd (run x s)) cmds c) = readCB c"
  "broken (fold (\<lambda>x s. snd (run x s)) cmds c) = broken c"
  "decoding (fold (\<lambda>x s. snd (run x s)) cmds c) = decoding c"
  "bufQ (fold (\<lambda>x s. snd (run x s)) cmds c) = bufQ c"
  "written (fold (\<lambda>x s. snd (run x s)) cmds c) = written c"
  "next_id (fold (\<lambda>x s. snd (run x s)) cmds c) = next_id c + length cmds"
  by (induction cmds arbitrary: c; simp)+

lemma runs_settled:
  "sock c \<Longrightarrow> \<not> broken c \<Longrightarrow> settled (fold (\<lambda>x s. snd (run x s)) cmds c) = settled c"
proof (induction cmds arbitrary: c)
  case Nil
  then show ?case by simp
next
  case (Cons x cmds)
  have "settled (snd (run x c)) = settled c" using Cons.prems by (simp add: run_def Let_def)
  then show ?case using Cons.IH [of "snd (run x c)"] Cons.prems by simp
qed

lemma runs_commandQ:
  "sock c \<Longrightarrow> \<not> broken c \<Longrightarrow>
   map qid (commandQ (fold (\<lambda>x s. snd (run x s)) cmds c)) =
     map qid (commandQ c) @ [next_id c ..< next_id c + length cmds] \<and>
   map cmd (commandQ (fold (\<lambda>x s. snd (run x s)) cmds c)) = map cmd (commandQ c) @ cmds"
proof (induction cmds arbitrary: c)
  case Nil
  then show ?case by simp
next
  case (Cons x cmds)
  have "[next_id c ..< next_id c + length (x # cmds)] =
        next_id c # [Suc (next_id c) ..< Suc (next_id c) + length cmds]"
    by (simp add: upt_rec)
  then show ?case using Cons.IH [of "snd (run x c)"] Cons.prems by (simp add: run_commandQ)
qed

lemma runs_sendTasks:
  "sock c \<Longrightarrow> \<not> broken c \<Longrightarrow> commandQ c = [] \<Longrightarrow> cmds \<noteq> [] \<Longrightarrow>
   sendTasks (fold (\<lambda>x s. snd (run x s)) cmds c) = Suc (sendTasks c)"
proof -
  have keep: "sock c \<Longrightarrow> \<not> broken c \<Longrightarrow> commandQ c \<noteq> [] \<Longrightarrow>
      sendTasks (fold (\<lambda>x s. snd (run x s)) cmds c) = sendTasks c" for cmds c
    by (induction cmds arbitrary: c) (simp_all add: run_sendTasks run_commandQ)
  assume a: "sock c" "\<not> broken c" "commandQ c = []" "cmds \<noteq> []"
  then obtain x xs where x: "cmds = x # xs" by (cases cmds) auto
  show ?thesis using a keep [of "snd (run x c)" xs] by (simp add: x run_sendTasks run_commandQ)
qed

lemma sendTask_step:
  assumes "sock c" and "commandQ c = [] \<or> 0 < sendTasks c"
  shows "\<exists>c'. step dl pb SendTask c = Some (Inr c') \<and>
           written c' = written c @ map cmd (take 1 (commandQ c)) \<and>
           commandQ c' = commandQ c \<and> settled c' = settled c \<and> bufQ c' = bufQ c \<and>
           decoding c' = decoding c \<and> sock c' \<and> broken c' = broken c"
  using assms by (cases "commandQ c") (auto simp: sendCommand_def Let_def)

lemma responses_tries:
  "list_all2 (\<lambda>p r. pb p = Inr r \<and> command_response r) ps rs \<Longrightarrow>
   \<exists>ts. map watchmanResponseToTry rs = map Inr ts"
proof (induction rule: list_all2_induct)
  case Nil
  then show ?case by simp
next
  case (Cons p ps r rs)
  then obtain t ts where "watchmanResponseToTry r = Inr t" "map watchmanResponseToTry rs = map Inr ts"
    using command_response_try by blast
  then have "map watchmanResponseToTry (r # rs) = map Inr (t # ts)" by simp
  then show ?case by blast
qed

lemma sample_frames: "frames sample_decodePduLength [0, 1, t]"
proof -
  have "not_ready sample_decodePduLength (take k [0, 1, t])" if "k < 3" for k
  proof -
    from that consider "k = 0" | "k = 1" | "k = 2" by linarith
    then show ?thesis
      by cases (simp_all add: not_ready_def sample_decodePduLength_def)
  qed
  then show ?thesis by (simp add: frames_def sample_decodePduLength_def)
qed

text \<open>
  Claim C1. Start from a working connection with an empty queue and an empty buffer, call
  \<^verbatim>\<open>run\<close> for N commands, let the posted send run, and then deliver N command-response
  PDUs in read events that cut the byte stream at arbitrary places. The N calls queue the
  commands in call order under N fresh promises and fulfil none of them. The execution ends
  without a fault; the promises are fulfilled in call order, the i-th with what
  \<^verbatim>\<open>watchmanResponseToTry\<close> makes of the i-th response; the queue and the buffer end
  empty, and every command was written once, in call order.
\<close>

theorem fifo_response_matching:
  assumes c: "inv_ids c" "sock c" "\<not> broken c" "\<not> decoding c" "commandQ c = []" "bufQ c = []"
    and fr: "list_all (frames dl) pdus"
    and rs: "list_all2 (\<lambda>p r. pb p = Inr r \<and> command_response r) pdus rs"
    and len: "length cmds = length pdus"
    and cat: "concat chunks = concat pdus"
  shows "\<exists>c1 c' ts.
      exec dl pb (map Run cmds) c = Some (Inr c1) \<and>
      map qid (commandQ c1) = [next_id c ..< next_id c + length cmds] \<and>
      map cmd (commandQ c1) = cmds \<and> settled c1 = settled c \<and>
      exec dl pb (map Run cmds @ SendTask # map ReadData chunks) c = Some (Inr c') \<and>
      map watchmanResponseToTry rs = map Inr ts \<and>
      settled c' = settled c @ zip [next_id c ..< next_id c + length cmds] ts \<and>
      commandQ c' = [] \<and> bufQ c' = [] \<and> written c' = written c @ cmds \<and> \<not> broken c'"
proof -
  let ?c1 = "fold (\<lambda>x s. snd (run x s)) cmds c"
  have e1: "exec dl pb (map Run cmds) c = Some (Inr ?c1)" by (rule exec_runs)
  have q1: "map qid (commandQ ?c1) = [next_id c ..< next_id c + length cmds]"
    "map cmd (commandQ ?c1) = cmds"
    using runs_commandQ [OF c(2,3), of cmds] c(5) by simp_all
  have s1: "settled ?c1 = settled c" using runs_settled [OF c(2,3)] .
  have t1: "commandQ ?c1 = [] \<or> 0 < sendTasks ?c1"
  proof (cases cmds)
    case Nil
    then show ?thesis using c(5) by simp
  next
    case (Cons x xs)
    then show ?thesis using runs_sendTasks [OF c(2,3,5), of cmds] by simp
  qed
  obtain c2 where e2: "step dl pb SendTask ?c1 = Some (Inr c2)"
    and w2: "written c2 = written ?c1 @ map cmd (take 1 (commandQ ?c1))"
    and q2: "commandQ c2 = commandQ ?c1" and s2: "settled c2 = settled ?c1"
    and b2: "bufQ c2 = bufQ ?c1" and d2: "decoding c2 = decoding ?c1" and k2: "sock c2"
    and br2: "broken c2 = broken ?c1"
    using sendTask_step [of ?c1 dl pb] c(2) t1 by auto
  obtain ts where ts: "map watchmanResponseToTry rs = map Inr ts"
    using responses_tries [OF rs] by blast
  have "length (map watchmanResponseToTry rs) = length (map Inr ts :: (exn + try_dynamic) list)"
    by (simp only: ts)
  then have "length rs = length ts" by simp
  then have lts: "length ts = length cmds"
    using list_all2_lengthD [OF rs] len by simp
  have "length (map qid (commandQ ?c1)) = length cmds" by (simp only: q1(1)) simp
  then have lq: "length (commandQ c2) = length cmds" using q2 by simp
  have p4: "bufQ c2 = []" using b2 c(6) by simp
  have p5: "\<not> decoding c2" using d2 c(4) by simp
  have p6: "if pdus = [] then ([] :: bytes) = [] else \<exists>k<length (hd pdus). [] = take k (hd pdus)"
  proof (cases pdus)
    case Nil
    then show ?thesis by simp
  next
    case (Cons p ps)
    then have "p \<noteq> []" using fr by (simp add: frames_def)
    then show ?thesis using Cons by auto
  qed
  have p7: "[] @ concat chunks = concat pdus" using cat by simp
  have p8: "length pdus \<le> length (commandQ c2)" using lq len by simp
  have p9: "distinct (map qid (commandQ c2))" using q2 q1(1) by simp
  have p10: "\<forall>x\<in>set (commandQ c2). \<not> isFulfilled c2 (qid x)"
  proof
    fix x assume "x \<in> set (commandQ c2)"
    then have "qid x \<in> set (map qid (commandQ ?c1))" using q2 by simp
    then have "next_id c \<le> qid x" using q1(1) by simp
    moreover have "\<forall>p\<in>set (settled c). fst p < next_id c" using c(1) by (simp add: inv_ids_def)
    ultimately have "qid x \<notin> fst ` set (settled c)" by force
    then show "\<not> isFulfilled c2 (qid x)" using s2 s1 by (simp add: isFulfilled_iff)
  qed
  let ?c' = "respond ts (c2\<lparr>bufQ := []\<rparr>)"
  have e3: "exec dl pb (map ReadData chunks) c2 = Some (Inr ?c')"
    by (rule reads_responses [OF fr rs ts p4 p5 p6 p7 p8 p9 p10 k2])
  have e: "exec dl pb (map Run cmds @ SendTask # map ReadData chunks) c = Some (Inr ?c')"
    using e1 e2 e3 by (simp add: exec_append)
  have r1: "settled ?c' = settled c @ zip [next_id c ..< next_id c + length cmds] ts"
    using respond_settled [of ts "c2\<lparr>bufQ := []\<rparr>"] lts lq q2 q1(1) s2 s1 by simp
  have r2: "commandQ ?c' = []" using lts lq by (simp add: respond_commandQ)
  have r3: "bufQ ?c' = []" by simp
  have "map cmd (take 1 (commandQ ?c1)) @ map cmd (take (length ts) (tl (commandQ ?c1))) =
      map cmd (commandQ ?c1)"
    using lts lq q2 by (cases "commandQ ?c1") simp_all
  then have r4: "written ?c' = written c @ cmds"
    using w2 q2 q1(2) by (simp add: respond_written)
  have r5: "\<not> broken ?c'" using br2 c(3) by simp
  show ?thesis
    by (intro exI [of _ ?c1] exI [of _ ?c'] exI [of _ ts] conjI e1 q1 s1 e ts r1 r2 r3 r4 r5)
qed

theorem fifo_response_matching_witness:
  "\<exists>c'. exec sample_decodePduLength sample_parseBser
          (map Run [DString ''a'', DString ''b''] @ SendTask #
           map ReadData [[0, 1, 5, 0], [1, 6]]) connected = Some (Inr c') \<and>
        settled c' = [(0, Inr (sample_value 5)), (1, Inr (sample_value 6))] \<and>
        written c' = [DString ''a'', DString ''b''] \<and> commandQ c' = [] \<and> bufQ c' = []"
proof -
  have c: "inv_ids connected" "sock connected" "\<not> broken connected" "\<not> decoding connected"
    "commandQ connected = []" "bufQ connected = []"
    by (simp_all add: connected_def init_def inv_ids_def)
  have fr: "list_all (frames sample_decodePduLength) [[0, 1, 5], [0, 1, 6]]"
    by (simp add: sample_frames)
  have cr: "command_response (sample_value 5)" "command_response (sample_value 6)"
    by (simp_all add: command_response_def kUnilateralLabels_def sample_value_def)
  have rs: "list_all2 (\<lambda>p r. sample_parseBser p = Inr r \<and> command_response r)
      [[0, 1, 5], [0, 1, 6]] [sample_value 5, sample_value 6]"
    by (simp add: sample_parseBser_def cr)
  have len: "length [DString ''a'', DString ''b''] = length [[0 :: 8 word, 1, 5], [0, 1, 6]]"
    by simp
  have cat: "concat [[0 :: 8 word, 1, 5, 0], [1, 6]] = concat [[0, 1, 5], [0, 1, 6]]" by simp
  obtain c1 c' ts where
    e: "exec sample_decodePduLength sample_parseBser
          (map Run [DString ''a'', DString ''b''] @ SendTask #
           map ReadData [[0, 1, 5, 0], [1, 6]]) connected = Some (Inr c')"
    and ts: "map watchmanResponseToTry [sample_value 5, sample_value 6] = map Inr ts"
    and s: "settled c' = settled connected @
          zip [next_id connected ..< next_id connected + length [DString ''a'', DString ''b'']] ts"
    and r: "commandQ c' = []" "bufQ c' = []"
      "written c' = written connected @ [DString ''a'', DString ''b'']"
    using fifo_response_matching [OF c fr rs len cat] by blast
  have "map watchmanResponseToTry [sample_value 5, sample_value 6] =
      map Inr [Inr (sample_value 5), Inr (sample_value 6)]"
    by (simp add: watchmanResponseToTry_def kError_def sample_value_def)
  then have "map Inr ts = (map Inr [Inr (sample_value 5), Inr (sample_value 6)] :: (exn + try_dynamic) list)"
    using ts by simp
  then have t: "ts = [Inr (sample_value 5), Inr (sample_value 6)]"
    by (auto simp: map_eq_Cons_conv)
  have n: "next_id connected = 0" "settled connected = []" "written connected = []"
    by (simp_all add: connected_def init_def)
  have "settled c' = [(0, Inr (sample_value 5)), (1, Inr (sample_value 6))]"
    using s by (simp add: t n upt_rec)
  then show ?thesis using e r n by auto
qed

end
